theory Spec2Isabelle
  imports Complex_Main "HOL-Library.Word"
begin

section \<open>Ordered dictionaries\<close>

text \<open>
  Both sides of the book are Python \<^verbatim>\<open>OrderedDict[int, int]\<close> objects (price to
  quantity). The iteration order of the dictionary is observable (the book is serialised
  in that order), so a dictionary is an association list in iteration order. The keys of
  a dictionary are pairwise different; \<open>keys_unique\<close> is that representation invariant.
\<close>

type_synonym ordered_dict = "(int \<times> int) list"

definition od_keys :: "ordered_dict \<Rightarrow> int list" where
  "od_keys d = map fst d"

definition keys_unique :: "ordered_dict \<Rightarrow> bool" where
  "keys_unique d = distinct (od_keys d)"

text \<open>\<^verbatim>\<open>d[k] = v\<close>: an existing key keeps its position, a new key goes to the end.\<close>

fun od_setitem :: "ordered_dict \<Rightarrow> int \<Rightarrow> int \<Rightarrow> ordered_dict" where
  "od_setitem [] k v = [(k, v)]"
| "od_setitem ((k', v') # d) k v =
     (if k' = k then (k, v) # d else (k', v') # od_setitem d k v)"

text \<open>\<^verbatim>\<open>d.pop(k, None)\<close>: the entry of \<open>k\<close> is removed; nothing happens when there is none.\<close>

fun od_pop :: "ordered_dict \<Rightarrow> int \<Rightarrow> ordered_dict" where
  "od_pop [] k = []"
| "od_pop ((k', v') # d) k = (if k' = k then d else (k', v') # od_pop d k)"

text \<open>\<^verbatim>\<open>OrderedDict(items)\<close>: the items are stored one after the other.\<close>

definition od_from_items :: "(int \<times> int) list \<Rightarrow> ordered_dict" where
  "od_from_items items = foldl (\<lambda>d (k, v). od_setitem d k v) [] items"

text \<open>
  \<^verbatim>\<open>sorted(items, key=lambda x: x[0])\<close> is a stable sort on the price;
  with \<^verbatim>\<open>reverse=True\<close> Python sorts the reversed list and reverses the result, which
  keeps the sort stable.
\<close>

definition sorted_items :: "(int \<times> int) list \<Rightarrow> (int \<times> int) list" where
  "sorted_items items = sort_key fst items"

definition sorted_items_reverse :: "(int \<times> int) list \<Rightarrow> (int \<times> int) list" where
  "sorted_items_reverse items = rev (sort_key fst (rev items))"

section \<open>The order book\<close>

record order_book =
  depth :: int
  bids :: ordered_dict
  asks :: ordered_dict
  last_update_id :: int

definition OrderBook :: "int \<Rightarrow> order_book" where
  "OrderBook d = \<lparr>depth = d, bids = [], asks = [], last_update_id = 0\<rparr>"

definition sort_bids :: "order_book \<Rightarrow> order_book" where
  "sort_bids ob = ob\<lparr>bids := od_from_items (sorted_items_reverse (bids ob))\<rparr>"

definition sort_asks :: "order_book \<Rightarrow> order_book" where
  "sort_asks ob = ob\<lparr>asks := od_from_items (sorted_items (asks ob))\<rparr>"

definition update_bid :: "order_book \<Rightarrow> int \<Rightarrow> int \<Rightarrow> order_book" where
  "update_bid ob price quantity =
     (if quantity = 0 then ob\<lparr>bids := od_pop (bids ob) price\<rparr>
      else sort_bids (ob\<lparr>bids := od_setitem (bids ob) price quantity\<rparr>))"

definition update_ask :: "order_book \<Rightarrow> int \<Rightarrow> int \<Rightarrow> order_book" where
  "update_ask ob price quantity =
     (if quantity = 0 then ob\<lparr>asks := od_pop (asks ob) price\<rparr>
      else sort_asks (ob\<lparr>asks := od_setitem (asks ob) price quantity\<rparr>))"

definition get_size :: "order_book \<Rightarrow> nat \<times> nat" where
  "get_size ob = (length (bids ob), length (asks ob))"

section \<open>Exceptions\<close>

text \<open>
  The exceptions that the modelled code can raise. \<open>HttpStatus n\<close> stands for the
  \<^verbatim>\<open>Exception\<close> raised on a response whose status \<open>n\<close> is not 200.
\<close>

datatype py_error =
    ValueError
  | OverflowError
  | ZeroDivisionError
  | TypeError
  | StructError
  | HttpStatus int

section \<open>Python floats\<close>

text \<open>
  A Python \<^verbatim>\<open>float\<close> is an IEEE 754 binary64 number. A finite float is modelled by
  the rational number it denotes, and every operation rounds the exact result to the
  nearest float, ties to the even significand, as the hardware, \<^verbatim>\<open>float(str)\<close>, the
  true division of integers and \<^verbatim>\<open>format\<close> do. The sign of a zero is not represented:
  \<^verbatim>\<open>int\<close> maps both zeros to 0, and the program formats quotients of integers only,
  which are never the negative zero.
\<close>

datatype pyfloat = Finite rat | Infinity bool | NaN

text \<open>The number of binary digits of a positive integer (0 for the others).\<close>

function bit_length :: "int \<Rightarrow> int" where
  "bit_length n = (if n \<le> 0 then 0 else 1 + bit_length (n div 2))"
  by pat_completeness auto
termination
  by (relation "measure nat") auto

declare bit_length.simps [simp del]

text \<open>
  The binary exponent of a rational \<open>x \<noteq> 0\<close>, that is the integer with
  \<open>2 powi ilog2 x \<le> \<bar>x\<bar> < 2 powi (ilog2 x + 1)\<close> (\<open>ilog2_lower\<close>, \<open>ilog2_upper\<close>).
\<close>

definition ilog2 :: "rat \<Rightarrow> int" where
  "ilog2 x = (let (p, q) = quotient_of \<bar>x\<bar>;
                  d = bit_length p - bit_length q
              in if 2 powi d \<le> \<bar>x\<bar> then d else d - 1)"

definition round_half_even :: "rat \<Rightarrow> int" where
  "round_half_even x =
     (let f = \<lfloor>x\<rfloor>; r = x - of_int f
      in if r < 1 / 2 then f
         else if r > 1 / 2 then f + 1
         else if even f then f else f + 1)"

text \<open>
  Rounding to binary64: 53 significant bits, so the floats of the binade of exponent
  \<open>e\<close> are the multiples of \<open>2 powi (e - 52)\<close>; below the smallest normal exponent
  \<open>-1022\<close> the spacing stays that of the subnormal numbers; a result of exponent 1024 or
  more is an infinity.
\<close>

definition round_double :: "rat \<Rightarrow> pyfloat" where
  "round_double x =
     (if x = 0 then Finite 0
      else let e = max (ilog2 x) (- 1022);
               q = 2 powi (e - 52);
               y = of_int (round_half_even (x / q)) * q
           in if 1024 \<le> ilog2 y then Infinity (x < 0) else Finite y)"

subsection \<open>Decimal strings\<close>

definition is_digit :: "char \<Rightarrow> bool" where
  "is_digit c = (c \<in> set ''0123456789'')"

definition digit_value :: "char \<Rightarrow> int" where
  "digit_value c = of_char c - 48"

definition digits_value :: "string \<Rightarrow> int" where
  "digits_value ds = foldl (\<lambda>a c. 10 * a + digit_value c) 0 ds"

text \<open>
  The exact value of a decimal string: an optional sign, digits, and optionally a point
  and more digits, with a digit on at least one side of the point. This is the notation
  of the snapshot's prices and quantities, and the one that \<^verbatim>\<open>to_json\<close> writes.
\<close>

definition parse_unsigned :: "string \<Rightarrow> rat option" where
  "parse_unsigned s =
     (let ip = takeWhile is_digit s; rest = dropWhile is_digit s
      in case rest of
           [] \<Rightarrow> if ip = [] then None else Some (of_int (digits_value ip))
         | c # fp \<Rightarrow>
             if c = CHR ''.'' \<and> list_all is_digit fp \<and> (ip \<noteq> [] \<or> fp \<noteq> [])
             then Some (of_int (digits_value ip) + of_int (digits_value fp) / 10 ^ length fp)
             else None)"

definition parse_decimal :: "string \<Rightarrow> rat option" where
  "parse_decimal s =
     (case s of
        [] \<Rightarrow> None
      | c # r \<Rightarrow>
          if c = CHR ''-'' then map_option uminus (parse_unsigned r)
          else if c = CHR ''+'' then parse_unsigned r
          else parse_unsigned s)"

text \<open>
  \<^verbatim>\<open>float(s)\<close> on an ASCII string. Underscores may stand between two digits and are
  dropped; blanks around the number are dropped; then come an optional sign and either
  \<^verbatim>\<open>inf\<close>, \<^verbatim>\<open>infinity\<close> or \<^verbatim>\<open>nan\<close> in any case, or digits with an optional point
  (a digit on at least one side of it) and an optional exponent. The result is the float
  nearest to the value written. Characters outside ASCII are not modelled (Python first
  maps the blanks and the digits of other scripts to ASCII): they make a
  \<^verbatim>\<open>ValueError\<close> here.
\<close>

definition is_space :: "char \<Rightarrow> bool" where
  "is_space c = (c \<in> set [CHR 0x09, CHR 0x0A, CHR 0x0B, CHR 0x0C, CHR 0x0D, CHR 0x20])"

definition strip :: "string \<Rightarrow> string" where
  "strip s = rev (dropWhile is_space (rev (dropWhile is_space s)))"

fun underscores_ok :: "char \<Rightarrow> string \<Rightarrow> bool" where
  "underscores_ok prev [] = (prev \<noteq> CHR ''_'')"
| "underscores_ok prev (c # cs) =
     ((if c = CHR ''_'' then is_digit prev
       else if prev = CHR ''_'' then is_digit c else True)
      \<and> underscores_ok c cs)"

definition ascii_lower :: "char \<Rightarrow> char" where
  "ascii_lower c =
     (let n = of_char c :: int in if 65 \<le> n \<and> n \<le> 90 then char_of (n + 32) else c)"

definition parse_exponent :: "string \<Rightarrow> int option" where
  "parse_exponent s =
     (case s of
        [] \<Rightarrow> None
      | c # r \<Rightarrow>
          (let (neg, ds) = (if c = CHR ''-'' then (True, r)
                            else if c = CHR ''+'' then (False, r) else (False, s))
           in if ds \<noteq> [] \<and> list_all is_digit ds
              then Some (if neg then - digits_value ds else digits_value ds)
              else None))"

definition parse_number :: "string \<Rightarrow> rat option" where
  "parse_number s =
     (let mantissa = takeWhile (\<lambda>c. c \<noteq> CHR ''e'' \<and> c \<noteq> CHR ''E'') s;
          rest = dropWhile (\<lambda>c. c \<noteq> CHR ''e'' \<and> c \<noteq> CHR ''E'') s
      in case rest of
           [] \<Rightarrow> parse_unsigned mantissa
         | e # exponent \<Rightarrow>
             (case parse_unsigned mantissa of
                None \<Rightarrow> None
              | Some x \<Rightarrow>
                  (case parse_exponent exponent of
                     None \<Rightarrow> None
                   | Some k \<Rightarrow> Some (x * 10 powi k))))"

definition float_of_str :: "string \<Rightarrow> py_error + pyfloat" where
  "float_of_str s =
     (if CHR ''_'' \<in> set s \<and> \<not> underscores_ok (CHR 0x00) s then Inl ValueError
      else let t = strip (filter (\<lambda>c. c \<noteq> CHR ''_'') s);
               (neg, body) = (case t of
                                [] \<Rightarrow> (False, t)
                              | c # r \<Rightarrow>
                                  if c = CHR ''-'' then (True, r)
                                  else if c = CHR ''+'' then (False, r) else (False, t));
               low = map ascii_lower body
           in if low = ''inf'' \<or> low = ''infinity'' then Inr (Infinity neg)
              else if low = ''nan'' then Inr NaN
              else case parse_number body of
                     None \<Rightarrow> Inl ValueError
                   | Some x \<Rightarrow> Inr (round_double (if neg then - x else x)))"

text \<open>\<^verbatim>\<open>a * b\<close> on floats.\<close>

definition float_mul :: "pyfloat \<Rightarrow> pyfloat \<Rightarrow> pyfloat" where
  "float_mul a b =
     (case (a, b) of
        (Finite x, Finite y) \<Rightarrow>
          (case round_double (x * y) of
             Infinity _ \<Rightarrow> Infinity ((x < 0) \<noteq> (y < 0))
           | r \<Rightarrow> r)
      | (Finite x, Infinity n) \<Rightarrow> if x = 0 then NaN else Infinity ((x < 0) \<noteq> n)
      | (Infinity n, Finite y) \<Rightarrow> if y = 0 then NaN else Infinity (n \<noteq> (y < 0))
      | (Infinity m, Infinity n) \<Rightarrow> Infinity (m \<noteq> n)
      | _ \<Rightarrow> NaN)"

text \<open>\<^verbatim>\<open>int(a)\<close> on a float: truncation towards zero.\<close>

definition int_of_float :: "pyfloat \<Rightarrow> py_error + int" where
  "int_of_float a =
     (case a of
        Finite x \<Rightarrow> Inr (if x < 0 then - \<lfloor>- x\<rfloor> else \<lfloor>x\<rfloor>)
      | Infinity _ \<Rightarrow> Inl OverflowError
      | NaN \<Rightarrow> Inl ValueError)"

text \<open>\<^verbatim>\<open>a / b\<close> on integers: the float nearest to the exact quotient.\<close>

definition int_truediv :: "int \<Rightarrow> int \<Rightarrow> py_error + pyfloat" where
  "int_truediv a b =
     (if b = 0 then Inl ZeroDivisionError
      else case round_double (of_int a / of_int b) of
             Infinity _ \<Rightarrow> Inl OverflowError
           | r \<Rightarrow> Inr r)"

definition digit_char :: "int \<Rightarrow> char" where
  "digit_char d = ''0123456789'' ! nat d"

function str_of_nonneg :: "int \<Rightarrow> string" where
  "str_of_nonneg n =
     (if n < 10 then [digit_char n] else str_of_nonneg (n div 10) @ [digit_char (n mod 10)])"
  by pat_completeness auto
termination
  by (relation "measure nat") auto

declare str_of_nonneg.simps [simp del]

definition zero_fill :: "nat \<Rightarrow> string \<Rightarrow> string" where
  "zero_fill w s = replicate (w - length s) CHR ''0'' @ s"

text \<open>
  \<^verbatim>\<open>f"{a:.7f}"\<close>: the exact value of the float, rounded to 7 decimals (ties to even),
  written with all 7 decimals.
\<close>

definition format_7f :: "pyfloat \<Rightarrow> string" where
  "format_7f a =
     (case a of
        Finite x \<Rightarrow>
          (let n = \<bar>round_half_even (x * 10000000)\<bar>
           in (if x < 0 then ''-'' else []) @ str_of_nonneg (n div 10000000) @ ''.''
              @ zero_fill 7 (str_of_nonneg (n mod 10000000)))
      | Infinity neg \<Rightarrow> if neg then ''-inf'' else ''inf''
      | NaN \<Rightarrow> ''nan'')"

section \<open>Serialisation\<close>

text \<open>\<^verbatim>\<open>format_decimal(value)\<close> is \<^verbatim>\<open>f"{value / 10_000_000:.7f}"\<close>.\<close>

definition format_decimal :: "int \<Rightarrow> py_error + string" where
  "format_decimal v =
     (case int_truediv v 10000000 of Inl e \<Rightarrow> Inl e | Inr a \<Rightarrow> Inr (format_7f a))"

text \<open>\<^verbatim>\<open>xs[:n]\<close>: a negative \<open>n\<close> counts from the end.\<close>

definition slice_to :: "'a list \<Rightarrow> int \<Rightarrow> 'a list" where
  "slice_to xs n = (if 0 \<le> n then take (nat n) xs else take (nat (int (length xs) + n)) xs)"

fun format_levels :: "(int \<times> int) list \<Rightarrow> py_error + (string \<times> string) list" where
  "format_levels [] = Inr []"
| "format_levels ((price, qty) # rest) =
     (case format_decimal price of
        Inl e \<Rightarrow> Inl e
      | Inr p \<Rightarrow>
          (case format_decimal qty of
             Inl e \<Rightarrow> Inl e
           | Inr q \<Rightarrow>
               (case format_levels rest of
                  Inl e \<Rightarrow> Inl e
                | Inr levels \<Rightarrow> Inr ((p, q) # levels))))"

record book_json =
  lastUpdateId :: int
  json_bids :: "(string \<times> string) list"
  json_asks :: "(string \<times> string) list"

definition to_json :: "order_book \<Rightarrow> py_error + book_json" where
  "to_json ob =
     (case format_levels (slice_to (bids ob) (depth ob)) of
        Inl e \<Rightarrow> Inl e
      | Inr bs \<Rightarrow>
          (case format_levels (slice_to (asks ob) (depth ob)) of
             Inl e \<Rightarrow> Inl e
           | Inr as \<Rightarrow>
               Inr \<lparr>lastUpdateId = last_update_id ob, json_bids = bs, json_asks = as\<rparr>))"

section \<open>The client\<close>

text \<open>
  The client holds the target ordinal, the book and the \<^verbatim>\<open>running\<close> flag. Two more
  fields record what the client does to the outside: \<open>validations\<close> has one entry for
  every call of \<^verbatim>\<open>_validate_order_book\<close> (the payload posted to the assertion endpoint,
  or the exception that the method caught and logged), and \<open>connections\<close> counts the
  WebSocket connections opened.
\<close>

record client =
  target_ordinal :: int
  order_book :: order_book
  running :: bool
  validations :: "(py_error + book_json) list"
  connections :: nat

definition OrderBookClient :: "int \<Rightarrow> int \<Rightarrow> client" where
  "OrderBookClient target d =
     \<lparr>target_ordinal = target, order_book = OrderBook d, running = False,
      validations = [], connections = 0\<rparr>"

subsection \<open>The snapshot\<close>

text \<open>The JSON document of the snapshot endpoint; prices and quantities are decimal strings.\<close>

record snapshot =
  snap_lastUpdateId :: int
  snap_bids :: "(string \<times> string) list"
  snap_asks :: "(string \<times> string) list"

text \<open>\<^verbatim>\<open>int(float(s) * 10_000_000)\<close>\<close>

definition to_scaled :: "string \<Rightarrow> py_error + int" where
  "to_scaled s =
     (case float_of_str s of
        Inl e \<Rightarrow> Inl e
      | Inr a \<Rightarrow> int_of_float (float_mul a (Finite 10000000)))"

text \<open>The loop over the levels of one side: each level is stored with \<^verbatim>\<open>d[price] = quantity\<close>.\<close>

fun load_levels :: "ordered_dict \<Rightarrow> (string \<times> string) list \<Rightarrow> py_error + ordered_dict" where
  "load_levels d [] = Inr d"
| "load_levels d ((p, q) # rest) =
     (case to_scaled p of
        Inl e \<Rightarrow> Inl e
      | Inr price \<Rightarrow>
          (case to_scaled q of
             Inl e \<Rightarrow> Inl e
           | Inr quantity \<Rightarrow> load_levels (od_setitem d price quantity) rest))"

text \<open>
  \<^verbatim>\<open>_process_snapshot\<close>. An exception leaves it at once and ends the run of the client,
  so the model has no state in that case.
\<close>

definition process_snapshot :: "client \<Rightarrow> snapshot \<Rightarrow> py_error + client" where
  "process_snapshot c snap =
     (let ob = (order_book c)\<lparr>last_update_id := snap_lastUpdateId snap, bids := [], asks := []\<rparr>
      in case load_levels (bids ob) (snap_bids snap) of
           Inl e \<Rightarrow> Inl e
         | Inr bs \<Rightarrow>
             (case load_levels (asks ob) (snap_asks snap) of
                Inl e \<Rightarrow> Inl e
              | Inr as \<Rightarrow>
                  Inr (c\<lparr>order_book := sort_asks (sort_bids (ob\<lparr>bids := bs, asks := as\<rparr>))\<rparr>)))"

text \<open>
  \<^verbatim>\<open>_get_snapshot\<close>. The server is a function from the URL of a GET request to the
  status and the document of the response.
\<close>

definition snapshot_url :: "client \<Rightarrow> string" where
  "snapshot_url c = ''http://localhost:9090/snapshot?depth=100''"

definition get_snapshot :: "client \<Rightarrow> (string \<Rightarrow> int \<times> snapshot) \<Rightarrow> py_error + client" where
  "get_snapshot c http_get =
     (let (status, data) = http_get (snapshot_url c)
      in if status \<noteq> 200 then Inl (HttpStatus status) else process_snapshot c data)"

subsection \<open>Delta frames\<close>

type_synonym byte = "8 word"

text \<open>
  A WebSocket message is a binary frame (\<^verbatim>\<open>bytes\<close>) or a text frame (\<^verbatim>\<open>str\<close>);
  \<^verbatim>\<open>len\<close> counts the bytes of the one and the characters of the other.
\<close>

datatype ws_message = Binary "byte list" | Text string

fun message_len :: "ws_message \<Rightarrow> nat" where
  "message_len (Binary bs) = length bs"
| "message_len (Text t) = length t"

definition be_uint :: "byte list \<Rightarrow> int" where
  "be_uint bs = foldl (\<lambda>a b. 256 * a + uint b) 0 bs"

text \<open>
  \<^verbatim>\<open>struct.unpack('>HQQQ', message)\<close>: big-endian, no padding, an unsigned 16-bit field
  and three unsigned 64-bit fields; a buffer of another size is a \<^verbatim>\<open>struct.error\<close>, and
  a \<^verbatim>\<open>str\<close> is a \<^verbatim>\<open>TypeError\<close>.
\<close>

fun unpack_HQQQ :: "ws_message \<Rightarrow> py_error + int \<times> int \<times> int \<times> int" where
  "unpack_HQQQ (Text t) = Inl TypeError"
| "unpack_HQQQ (Binary bs) =
     (if length bs \<noteq> 26 then Inl StructError
      else Inr (be_uint (take 2 bs), be_uint (take 8 (drop 2 bs)),
                be_uint (take 8 (drop 10 bs)), be_uint (take 8 (drop 18 bs))))"

text \<open>
  \<^verbatim>\<open>_validate_order_book\<close>: the serialised book is posted to the assertion endpoint; the
  response is only logged, and so is an exception.
\<close>

definition validate_order_book :: "client \<Rightarrow> client" where
  "validate_order_book c = c\<lparr>validations := validations c @ [to_json (order_book c)]\<rparr>"

text \<open>\<^verbatim>\<open>_process_delta\<close> (the log lines are left out).\<close>

definition process_delta :: "client \<Rightarrow> ws_message \<Rightarrow> client" where
  "process_delta c message =
     (if message_len message \<noteq> 26 then c
      else case unpack_HQQQ message of
             Inl e \<Rightarrow> c
           | Inr (is_bid, ordinal_id, price, quantity) \<Rightarrow>
               (let ob = (if is_bid = 1 then update_bid (order_book c) price quantity
                          else update_ask (order_book c) price quantity);
                    c1 = c\<lparr>order_book := ob\<lparr>last_update_id := ordinal_id\<rparr>\<rparr>
                in if ordinal_id \<ge> target_ordinal c
                   then (validate_order_book c1)\<lparr>running := False\<rparr>
                   else c1))"

subsection \<open>The stream loop\<close>

text \<open>
  \<^verbatim>\<open>async for message in websocket\<close>: the messages of one connection, up to its end or
  to the \<^verbatim>\<open>break\<close>.
\<close>

fun receive_messages :: "client \<Rightarrow> ws_message list \<Rightarrow> client" where
  "receive_messages c [] = c"
| "receive_messages c (message # rest) =
     (if \<not> running c then c else receive_messages (process_delta c message) rest)"

text \<open>
  \<^verbatim>\<open>while self.running\<close>: one round for each connection. The argument lists, connection
  by connection, the messages that arrive before the connection ends; the function gives
  the state of the client when the loop has ended or these connections are used up.
\<close>

fun stream_loop :: "client \<Rightarrow> ws_message list list \<Rightarrow> client" where
  "stream_loop c [] = c"
| "stream_loop c (conn # conns) =
     (if running c
      then stream_loop (receive_messages (c\<lparr>connections := connections c + 1\<rparr>) conn) conns
      else c)"

definition connect_websocket :: "client \<Rightarrow> ws_message list list \<Rightarrow> client" where
  "connect_websocket c conns = stream_loop (c\<lparr>running := True\<rparr>) conns"

section \<open>Notions used in the statements\<close>

text \<open>The states that the client can be in: after its creation, a snapshot, a message.\<close>

inductive reachable :: "client \<Rightarrow> bool" where
  created: "reachable (OrderBookClient target d)"
| snapshot: "reachable c \<Longrightarrow> process_snapshot c snap = Inr c' \<Longrightarrow> reachable c'"
| delta: "reachable c \<Longrightarrow> reachable (process_delta c message)"

text \<open>The frame of a delta, as \<^verbatim>\<open>struct.pack('>HQQQ', side, ordinal, price, quantity)\<close> makes it.\<close>

definition be_bytes :: "nat \<Rightarrow> int \<Rightarrow> byte list" where
  "be_bytes n v = map (\<lambda>i. word_of_int (v div 256 ^ i)) (rev [0..<n])"

definition pack_HQQQ :: "int \<Rightarrow> int \<Rightarrow> int \<Rightarrow> int \<Rightarrow> ws_message" where
  "pack_HQQQ side ordinal price quantity =
     Binary (be_bytes 2 side @ be_bytes 8 ordinal @ be_bytes 8 price @ be_bytes 8 quantity)"

text \<open>The ordinal of a well-formed frame.\<close>

definition frame_ordinal :: "ws_message \<Rightarrow> int option" where
  "frame_ordinal message =
     (if message_len message \<noteq> 26 then None
      else case unpack_HQQQ message of
             Inl e \<Rightarrow> None
           | Inr (is_bid, ordinal_id, price, quantity) \<Rightarrow> Some ordinal_id)"

text \<open>A message that \<^verbatim>\<open>_process_delta\<close> does not decode: a wrong length, or a text frame.\<close>

definition malformed :: "ws_message \<Rightarrow> bool" where
  "malformed message = (frame_ordinal message = None)"

text \<open>The order of a book: bid prices strictly descending, ask prices strictly ascending.\<close>

definition book_ordered :: "order_book \<Rightarrow> bool" where
  "book_ordered ob =
     (sorted_wrt (>) (od_keys (bids ob)) \<and> sorted_wrt (<) (od_keys (asks ob)))"

text \<open>
  The book after one message, as \<^verbatim>\<open>_process_delta\<close> leaves it: a well-formed frame
  is applied to the bid or to the ask side and sets the last update id; any other message
  leaves the book as it is.
\<close>

definition apply_delta :: "order_book \<Rightarrow> ws_message \<Rightarrow> order_book" where
  "apply_delta ob message =
     (if message_len message \<noteq> 26 then ob
      else case unpack_HQQQ message of
             Inl e \<Rightarrow> ob
           | Inr (side, ordinal, price, quantity) \<Rightarrow>
               (if side = 1 then update_bid ob price quantity
                else update_ask ob price quantity)\<lparr>last_update_id := ordinal\<rparr>)"

text \<open>A well-formed frame whose ordinal is at least the target.\<close>

definition reaches_target :: "int \<Rightarrow> ws_message \<Rightarrow> bool" where
  "reaches_target target message =
     (case frame_ordinal message of None \<Rightarrow> False | Some n \<Rightarrow> n \<ge> target)"

text \<open>The ordinals of the well-formed frames of a stream, in order of arrival.\<close>

definition stream_ordinals :: "ws_message list \<Rightarrow> int list" where
  "stream_ordinals messages = List.map_filter frame_ordinal messages"

text \<open>The states of the client before and after each of a list of messages.\<close>

fun delta_states :: "client \<Rightarrow> ws_message list \<Rightarrow> client list" where
  "delta_states c [] = [c]"
| "delta_states c (message # rest) = c # delta_states (process_delta c message) rest"

text \<open>The characters of an unsigned decimal string: the digits and the point.\<close>

definition plain_char :: "char \<Rightarrow> bool" where
  "plain_char c = (is_digit c \<or> c = CHR ''.'')"

text \<open>
  The decimal notation of \<open>v / 10\<^sup>7\<close> with 7 decimals: sign, integer part, point, and
  the 7 digits of the fractional part.
\<close>

definition decimal_string :: "int \<Rightarrow> string" where
  "decimal_string v =
     (if v < 0 then ''-'' else []) @ str_of_nonneg (\<bar>v\<bar> div 10000000) @ ''.''
     @ zero_fill 7 (str_of_nonneg (\<bar>v\<bar> mod 10000000))"

section \<open>Facts about ordered dictionaries\<close>

lemma od_pop_absent: "k \<notin> set (od_keys d) \<Longrightarrow> od_pop d k = d"
  by (induction d) (auto simp: od_keys_def)

lemma od_keys_pop_subset: "set (od_keys (od_pop d k)) \<subseteq> set (od_keys d)"
  by (induction d) (force simp: od_keys_def split: if_splits)+

lemma od_pop_removes: "keys_unique d \<Longrightarrow> k \<notin> set (od_keys (od_pop d k))"
proof (induction d)
  case Nil
  then show ?case by (simp add: od_keys_def)
next
  case (Cons e d)
  obtain k' v' where e: "e = (k', v')" by (cases e)
  from Cons.prems have u: "keys_unique d" and fresh: "k' \<notin> set (od_keys d)"
    by (simp_all add: keys_unique_def od_keys_def e)
  show ?case
  proof (cases "k' = k")
    case True
    with fresh show ?thesis by (simp add: e)
  next
    case False
    with Cons.IH [OF u] show ?thesis by (simp add: e od_keys_def)
  qed
qed

lemma map_of_od_pop:
  "keys_unique d \<Longrightarrow> map_of (od_pop d k) = (map_of d)(k := None)"
proof (induction d)
  case Nil
  then show ?case by simp
next
  case (Cons e d)
  obtain k' v' where e: "e = (k', v')" by (cases e)
  from Cons.prems have u: "keys_unique d" and fresh: "k' \<notin> set (od_keys d)"
    by (simp_all add: keys_unique_def od_keys_def e)
  show ?case
  proof (cases "k' = k")
    case True
    from fresh have "map_of d k' = None"
      by (simp add: od_keys_def map_of_eq_None_iff)
    with True show ?thesis by (auto simp: e)
  next
    case False
    with Cons.IH [OF u] show ?thesis by (auto simp: e)
  qed
qed

lemma length_od_pop_present:
  "k \<in> set (od_keys d) \<Longrightarrow> Suc (length (od_pop d k)) = length d"
  by (induction d) (force simp: od_keys_def)+

lemma od_pop_sublist: "od_pop d k = filter (\<lambda>e. fst e \<noteq> k) d" if "keys_unique d"
  using that
proof (induction d)
  case Nil
  then show ?case by simp
next
  case (Cons e d)
  obtain k' v' where e: "e = (k', v')" by (cases e)
  from Cons.prems have u: "keys_unique d" and fresh: "k' \<notin> set (od_keys d)"
    by (simp_all add: keys_unique_def od_keys_def e)
  show ?case
  proof (cases "k' = k")
    case True
    with fresh have "filter (\<lambda>e. fst e \<noteq> k) d = d"
      by (auto simp: od_keys_def filter_id_conv)
    with True show ?thesis by (simp add: e)
  next
    case False
    with Cons.IH [OF u] show ?thesis by (simp add: e)
  qed
qed

lemma od_keys_setitem_list:
  "od_keys (od_setitem d k v) = (if k \<in> set (od_keys d) then od_keys d else od_keys d @ [k])"
  by (induction d) (force simp: od_keys_def)+

lemma od_keys_setitem: "set (od_keys (od_setitem d k v)) = insert k (set (od_keys d))"
  by (auto simp: od_keys_setitem_list)

lemma keys_unique_setitem: "keys_unique d \<Longrightarrow> keys_unique (od_setitem d k v)"
  by (simp add: keys_unique_def od_keys_setitem_list)

lemma od_setitem_fresh: "k \<notin> set (od_keys d) \<Longrightarrow> od_setitem d k v = d @ [(k, v)]"
  by (induction d) (auto simp: od_keys_def)

lemma foldl_setitem_fresh:
  "keys_unique (acc @ items) \<Longrightarrow>
   foldl (\<lambda>d (k, v). od_setitem d k v) acc items = acc @ items"
proof (induction items arbitrary: acc)
  case Nil
  then show ?case by simp
next
  case (Cons e items)
  obtain k v where e: "e = (k, v)" by (cases e)
  from Cons.prems have fresh: "k \<notin> set (od_keys acc)"
    by (auto simp: keys_unique_def od_keys_def e)
  from Cons.prems have "keys_unique ((acc @ [(k, v)]) @ items)"
    by (simp add: e)
  from Cons.IH [OF this] fresh show ?case
    by (simp add: e od_setitem_fresh)
qed

lemma od_from_items_unique: "keys_unique items \<Longrightarrow> od_from_items items = items"
  using foldl_setitem_fresh [of "[]" items] by (simp add: od_from_items_def)

lemma keys_unique_sort_key: "keys_unique (sort_key fst items) = keys_unique items"
  by (simp add: keys_unique_def od_keys_def distinct_map)

lemma keys_unique_rev: "keys_unique (rev items) = keys_unique items"
  by (simp add: keys_unique_def od_keys_def rev_map [symmetric])

lemma keys_unique_sorted_items: "keys_unique (sorted_items items) = keys_unique items"
  by (simp add: sorted_items_def keys_unique_sort_key)

lemma keys_unique_sorted_items_reverse:
  "keys_unique (sorted_items_reverse items) = keys_unique items"
  by (simp add: sorted_items_reverse_def keys_unique_sort_key keys_unique_rev)

lemma ascending_sorted_items:
  "keys_unique items \<Longrightarrow> sorted_wrt (<) (od_keys (sorted_items items))"
proof -
  assume u: "keys_unique items"
  have "sorted (map fst (sort_key fst items))" by (rule sorted_sort_key)
  moreover from u have "distinct (map fst (sort_key fst items))"
    using keys_unique_sort_key [of items] by (simp add: keys_unique_def od_keys_def)
  ultimately show ?thesis
    by (simp add: strict_sorted_iff sorted_items_def od_keys_def)
qed

lemma descending_sorted_items_reverse:
  "keys_unique items \<Longrightarrow> sorted_wrt (>) (od_keys (sorted_items_reverse items))"
proof -
  assume u: "keys_unique items"
  then have "keys_unique (rev items)" by (simp add: keys_unique_rev)
  then have "sorted_wrt (<) (od_keys (sorted_items (rev items)))"
    by (rule ascending_sorted_items)
  then have "sorted_wrt (<) (map fst (sort_key fst (rev items)))"
    by (simp add: sorted_items_def od_keys_def)
  then have "sorted_wrt (\<lambda>x y. y < x) (rev (map fst (sort_key fst (rev items))))"
    by (simp add: sorted_wrt_rev)
  then show ?thesis
    by (simp add: sorted_items_reverse_def od_keys_def rev_map)
qed

lemma sorted_wrt_od_pop:
  "sorted_wrt P (od_keys d) \<Longrightarrow> sorted_wrt P (od_keys (od_pop d k))"
proof (induction d)
  case Nil
  then show ?case by simp
next
  case (Cons e d)
  obtain k' v' where e: "e = (k', v')" by (cases e)
  from Cons.prems have hd: "\<forall>y \<in> set (od_keys d). P k' y" and tl: "sorted_wrt P (od_keys d)"
    by (simp_all add: od_keys_def e)
  from hd od_keys_pop_subset [of d k] have "\<forall>y \<in> set (od_keys (od_pop d k)). P k' y"
    by blast
  with Cons.IH [OF tl] tl show ?case
    by (simp add: e od_keys_def)
qed

lemma descending_unique: "sorted_wrt (>) (od_keys d) \<Longrightarrow> keys_unique d"
proof -
  assume "sorted_wrt (>) (od_keys d)"
  then have "sorted_wrt (<) (rev (od_keys d))" by (simp add: sorted_wrt_rev)
  then have "distinct (rev (od_keys d))" by (simp add: strict_sorted_iff)
  then show ?thesis by (simp add: keys_unique_def)
qed

lemma ascending_unique: "sorted_wrt (<) (od_keys d) \<Longrightarrow> keys_unique d"
  by (simp add: strict_sorted_iff keys_unique_def)

lemma sort_bids_ordered:
  "keys_unique (bids ob) \<Longrightarrow> sorted_wrt (>) (od_keys (bids (sort_bids ob)))"
  by (simp add: sort_bids_def od_from_items_unique keys_unique_sorted_items_reverse
      descending_sorted_items_reverse)

lemma sort_asks_ordered:
  "keys_unique (asks ob) \<Longrightarrow> sorted_wrt (<) (od_keys (asks (sort_asks ob)))"
  by (simp add: sort_asks_def od_from_items_unique keys_unique_sorted_items
      ascending_sorted_items)

lemma update_bid_ordered: "book_ordered ob \<Longrightarrow> book_ordered (update_bid ob price quantity)"
proof -
  assume inv: "book_ordered ob"
  then have u: "keys_unique (bids ob)" by (simp add: book_ordered_def descending_unique)
  show ?thesis
  proof (cases "quantity = 0")
    case True
    with inv show ?thesis by (simp add: update_bid_def book_ordered_def sorted_wrt_od_pop)
  next
    case False
    from u have "keys_unique (bids (ob\<lparr>bids := od_setitem (bids ob) price quantity\<rparr>))"
      by (simp add: keys_unique_setitem)
    from sort_bids_ordered [OF this] inv False show ?thesis
      by (simp add: update_bid_def book_ordered_def sort_bids_def)
  qed
qed

lemma update_ask_ordered: "book_ordered ob \<Longrightarrow> book_ordered (update_ask ob price quantity)"
proof -
  assume inv: "book_ordered ob"
  then have u: "keys_unique (asks ob)" by (simp add: book_ordered_def ascending_unique)
  show ?thesis
  proof (cases "quantity = 0")
    case True
    with inv show ?thesis by (simp add: update_ask_def book_ordered_def sorted_wrt_od_pop)
  next
    case False
    from u have "keys_unique (asks (ob\<lparr>asks := od_setitem (asks ob) price quantity\<rparr>))"
      by (simp add: keys_unique_setitem)
    from sort_asks_ordered [OF this] inv False show ?thesis
      by (simp add: update_ask_def book_ordered_def sort_asks_def)
  qed
qed

lemma order_book_validate [simp]: "order_book (validate_order_book c) = order_book c"
  by (simp add: validate_order_book_def)

lemma process_delta_ordered:
  "book_ordered (order_book c) \<Longrightarrow> book_ordered (order_book (process_delta c message))"
proof -
  assume inv: "book_ordered (order_book c)"
  have upd: "book_ordered (ob\<lparr>last_update_id := n\<rparr>) = book_ordered ob" for ob n
    by (simp add: book_ordered_def)
  show ?thesis
    using inv update_bid_ordered [OF inv] update_ask_ordered [OF inv]
    by (auto simp: process_delta_def Let_def upd split: sum.splits prod.splits)
qed

lemma load_levels_unique:
  "keys_unique d \<Longrightarrow> load_levels d levels = Inr d' \<Longrightarrow> keys_unique d'"
proof (induction d levels rule: load_levels.induct)
  case (1 d)
  then show ?case by simp
next
  case (2 d p q rest)
  from "2.prems" obtain price quantity where
    p: "to_scaled p = Inr price" and q: "to_scaled q = Inr quantity"
    and r: "load_levels (od_setitem d price quantity) rest = Inr d'"
    by (auto split: sum.splits)
  from "2.prems"(1) have "keys_unique (od_setitem d price quantity)"
    by (rule keys_unique_setitem)
  from "2.IH" [OF p q this r] show ?case .
qed

lemma process_snapshot_ordered:
  "process_snapshot c snap = Inr c' \<Longrightarrow> book_ordered (order_book c')"
proof -
  assume ok: "process_snapshot c snap = Inr c'"
  then obtain bs as where
    bs: "load_levels [] (snap_bids snap) = Inr bs" and as: "load_levels [] (snap_asks snap) = Inr as"
    and c': "c' = c\<lparr>order_book := sort_asks (sort_bids ((order_book c)
              \<lparr>last_update_id := snap_lastUpdateId snap, bids := bs, asks := as\<rparr>))\<rparr>"
    by (auto simp: process_snapshot_def Let_def split: sum.splits)
  have e: "keys_unique []" by (simp add: keys_unique_def od_keys_def)
  from load_levels_unique [OF e bs] have ub: "keys_unique bs" .
  from load_levels_unique [OF e as] have ua: "keys_unique as" .
  let ?ob = "(order_book c)\<lparr>last_update_id := snap_lastUpdateId snap, bids := bs, asks := as\<rparr>"
  from ub have "sorted_wrt (>) (od_keys (bids (sort_bids ?ob)))"
    by (intro sort_bids_ordered) simp
  moreover from ua have "sorted_wrt (<) (od_keys (asks (sort_asks (sort_bids ?ob))))"
    by (intro sort_asks_ordered) (simp add: sort_bids_def)
  ultimately show ?thesis
    by (simp add: c' book_ordered_def sort_asks_def)
qed

lemma reachable_ordered: "reachable c \<Longrightarrow> book_ordered (order_book c)"
proof (induction rule: reachable.induct)
  case (created target d)
  then show ?case by (simp add: OrderBookClient_def OrderBook_def book_ordered_def od_keys_def)
next
  case (snapshot c snap c')
  then show ?case by (simp add: process_snapshot_ordered)
next
  case (delta c message)
  then show ?case by (simp add: process_delta_ordered)
qed

lemma strict_imp_weak_desc: "sorted_wrt (>) (xs :: int list) \<Longrightarrow> sorted_wrt (\<ge>) xs"
  by (erule sorted_wrt_mono_rel [rotated]) simp

lemma strict_imp_weak_asc: "sorted_wrt (<) (xs :: int list) \<Longrightarrow> sorted_wrt (\<le>) xs"
  by (erule sorted_wrt_mono_rel [rotated]) simp

lemma od_setitem_entries: "set (od_setitem d k v) \<subseteq> insert (k, v) (set d)"
  by (induction d) (auto split: if_splits)

lemma od_pop_entries: "set (od_pop d k) \<subseteq> set d"
  by (induction d) (auto split: if_splits)

lemma sort_bids_entries: "keys_unique (bids ob) \<Longrightarrow> set (bids (sort_bids ob)) = set (bids ob)"
proof -
  assume "keys_unique (bids ob)"
  then have "keys_unique (sorted_items_reverse (bids ob))"
    by (simp add: keys_unique_sorted_items_reverse)
  then have "od_from_items (sorted_items_reverse (bids ob)) = sorted_items_reverse (bids ob)"
    by (rule od_from_items_unique)
  then show ?thesis by (simp add: sort_bids_def sorted_items_reverse_def)
qed

lemma sort_asks_entries: "keys_unique (asks ob) \<Longrightarrow> set (asks (sort_asks ob)) = set (asks ob)"
proof -
  assume "keys_unique (asks ob)"
  then have "keys_unique (sorted_items (asks ob))"
    by (simp add: keys_unique_sorted_items)
  then have "od_from_items (sorted_items (asks ob)) = sorted_items (asks ob)"
    by (rule od_from_items_unique)
  then show ?thesis by (simp add: sort_asks_def sorted_items_def)
qed

lemma update_never_stores_zero:
  assumes "keys_unique (bids ob)" and "keys_unique (asks ob)"
    and "0 \<notin> snd ` set (bids ob)" and "0 \<notin> snd ` set (asks ob)"
  shows "0 \<notin> snd ` set (bids (update_bid ob price quantity))"
    and "0 \<notin> snd ` set (asks (update_bid ob price quantity))"
    and "0 \<notin> snd ` set (bids (update_ask ob price quantity))"
    and "0 \<notin> snd ` set (asks (update_ask ob price quantity))"
proof -
  have sb: "set (bids (update_bid ob price quantity))
              \<subseteq> (if quantity = 0 then {} else {(price, quantity)}) \<union> set (bids ob)"
    using assms(1) od_pop_entries [of "bids ob" price]
      od_setitem_entries [of "bids ob" price quantity]
      sort_bids_entries [of "ob\<lparr>bids := od_setitem (bids ob) price quantity\<rparr>"]
    by (auto simp: update_bid_def keys_unique_setitem)
  have sa: "set (asks (update_ask ob price quantity))
              \<subseteq> (if quantity = 0 then {} else {(price, quantity)}) \<union> set (asks ob)"
    using assms(2) od_pop_entries [of "asks ob" price]
      od_setitem_entries [of "asks ob" price quantity]
      sort_asks_entries [of "ob\<lparr>asks := od_setitem (asks ob) price quantity\<rparr>"]
    by (auto simp: update_ask_def keys_unique_setitem)
  from sb assms(3) show "0 \<notin> snd ` set (bids (update_bid ob price quantity))"
    by (auto split: if_splits)
  from sa assms(4) show "0 \<notin> snd ` set (asks (update_ask ob price quantity))"
    by (auto split: if_splits)
  from assms(4) show "0 \<notin> snd ` set (asks (update_bid ob price quantity))"
    by (simp add: update_bid_def sort_bids_def)
  from assms(3) show "0 \<notin> snd ` set (bids (update_ask ob price quantity))"
    by (simp add: update_ask_def sort_asks_def)
qed

section \<open>Facts about floats and decimal strings\<close>

lemma bit_length_nonneg: "0 \<le> bit_length n"
  by (induction n rule: bit_length.induct) (subst bit_length.simps, simp)

lemma bit_length_pos: "0 < n \<Longrightarrow> 1 \<le> bit_length n"
  using bit_length_nonneg [of "n div 2"] by (subst bit_length.simps) simp

lemma bit_length_bounds:
  "0 < n \<Longrightarrow> 2 ^ nat (bit_length n - 1) \<le> n \<and> n < 2 ^ nat (bit_length n)"
proof (induction n rule: bit_length.induct)
  case (1 n)
  from "1.prems" have b: "bit_length n = 1 + bit_length (n div 2)"
    by (subst bit_length.simps) simp
  show ?case
  proof (cases "n div 2 = 0")
    case True
    with "1.prems" have "n = 1" by presburger
    moreover have "bit_length (0::int) = 0" by (subst bit_length.simps) simp
    ultimately show ?thesis using b by simp
  next
    case False
    with "1.prems" have pos: "0 < n div 2" by presburger
    from "1.prems" have "\<not> n \<le> 0" by simp
    from "1.IH" [OF this pos]
    have lo: "2 ^ nat (bit_length (n div 2) - 1) \<le> n div 2"
      and hi: "n div 2 < 2 ^ nat (bit_length (n div 2))" by simp_all
    from bit_length_pos [OF pos] have b1: "1 \<le> bit_length (n div 2)" .
    have e1: "nat (bit_length n - 1) = Suc (nat (bit_length (n div 2) - 1))"
      using b b1 by simp
    have e2: "nat (bit_length n) = Suc (nat (bit_length (n div 2)))"
      using b b1 by simp
    have "2 * (n div 2) \<le> n" and "n \<le> 2 * (n div 2) + 1" by presburger+
    with lo hi show ?thesis
      unfolding e1 e2 by simp
  qed
qed

lemma ilog2_lower: "2 powi (ilog2 x) \<le> \<bar>x\<bar>" if "x \<noteq> 0"
proof -
  obtain p q where pq: "quotient_of \<bar>x\<bar> = (p, q)" by (cases "quotient_of \<bar>x\<bar>")
  from quotient_of_denom_pos [OF pq] have q: "0 < q" .
  from quotient_of_div [OF pq] have x: "\<bar>x\<bar> = of_int p / of_int q" .
  from that have "0 < \<bar>x\<bar>" by simp
  with x q have p: "0 < p" by (simp add: zero_less_divide_iff)
  let ?d = "bit_length p - bit_length q"
  show ?thesis
  proof (cases "2 powi ?d \<le> \<bar>x\<bar>")
    case True
    then show ?thesis by (simp add: ilog2_def pq Let_def)
  next
    case False
    then have i: "ilog2 x = ?d - 1" by (simp add: ilog2_def pq Let_def)
    from bit_length_bounds [OF p] have "2 ^ nat (bit_length p - 1) \<le> p" by simp
    then have "(of_int (2 ^ nat (bit_length p - 1)) :: rat) \<le> of_int p"
      by (simp only: of_int_le_iff)
    moreover have "(2::rat) powi (bit_length p - 1) = 2 ^ nat (bit_length p - 1)"
      using bit_length_pos [OF p] by (simp add: power_int_def)
    ultimately have P: "(2::rat) powi (bit_length p - 1) \<le> of_int p" by simp
    from bit_length_bounds [OF q] have "q \<le> 2 ^ nat (bit_length q)" by simp
    then have "(of_int q :: rat) \<le> of_int (2 ^ nat (bit_length q))"
      by (simp only: of_int_le_iff)
    moreover have "(2::rat) powi (bit_length q) = 2 ^ nat (bit_length q)"
      using bit_length_nonneg [of q] by (simp add: power_int_def)
    ultimately have Q: "of_int q \<le> (2::rat) powi (bit_length q)" by simp
    have "(2::rat) powi (?d - 1) = 2 powi ((bit_length p - 1) - bit_length q)"
      by (simp add: algebra_simps)
    also have "\<dots> = 2 powi (bit_length p - 1) / 2 powi (bit_length q)"
      by (rule power_int_diff) simp
    also have "\<dots> \<le> of_int p / of_int q"
      using P Q q p by (intro frac_le) simp_all
    finally show ?thesis by (simp add: i x)
  qed
qed

lemma ilog2_upper: "\<bar>x\<bar> < 2 powi (ilog2 x + 1)" if "x \<noteq> 0"
proof -
  obtain p q where pq: "quotient_of \<bar>x\<bar> = (p, q)" by (cases "quotient_of \<bar>x\<bar>")
  from quotient_of_denom_pos [OF pq] have q: "0 < q" .
  from quotient_of_div [OF pq] have x: "\<bar>x\<bar> = of_int p / of_int q" .
  from that have "0 < \<bar>x\<bar>" by simp
  with x q have p: "0 < p" by (simp add: zero_less_divide_iff)
  let ?d = "bit_length p - bit_length q"
  show ?thesis
  proof (cases "2 powi ?d \<le> \<bar>x\<bar>")
    case True
    then have i: "ilog2 x = ?d" by (simp add: ilog2_def pq Let_def)
    from bit_length_bounds [OF p] have "p < 2 ^ nat (bit_length p)" by simp
    then have "(of_int p :: rat) < of_int (2 ^ nat (bit_length p))"
      by (simp only: of_int_less_iff)
    moreover have "(2::rat) powi (bit_length p) = 2 ^ nat (bit_length p)"
      using bit_length_nonneg [of p] by (simp add: power_int_def)
    ultimately have P: "of_int p < (2::rat) powi (bit_length p)" by simp
    from bit_length_bounds [OF q] have "2 ^ nat (bit_length q - 1) \<le> q" by simp
    then have "(of_int (2 ^ nat (bit_length q - 1)) :: rat) \<le> of_int q"
      by (simp only: of_int_le_iff)
    moreover have "(2::rat) powi (bit_length q - 1) = 2 ^ nat (bit_length q - 1)"
      using bit_length_pos [OF q] by (simp add: power_int_def)
    ultimately have Q: "(2::rat) powi (bit_length q - 1) \<le> of_int q" by simp
    have "(of_int p :: rat) / of_int q < 2 powi (bit_length p) / 2 powi (bit_length q - 1)"
      using P Q q p by (intro frac_less) simp_all
    also have "\<dots> = (2::rat) powi (bit_length p - (bit_length q - 1))"
      by (rule power_int_diff [symmetric]) simp
    also have "bit_length p - (bit_length q - 1) = ?d + 1" by simp
    finally show ?thesis by (simp add: i x)
  next
    case False
    then have "ilog2 x = ?d - 1" by (simp add: ilog2_def pq Let_def)
    with False show ?thesis by simp
  qed
qed

lemma ilog2_less: "x \<noteq> 0 \<Longrightarrow> \<bar>x\<bar> < 2 powi n \<Longrightarrow> 0 \<le> n \<Longrightarrow> ilog2 x < n"
proof -
  assume "x \<noteq> 0" and b: "\<bar>x\<bar> < 2 powi n" and n: "0 \<le> n"
  then have "(2::rat) powi (ilog2 x) < 2 powi n"
    using ilog2_lower [of x] by simp
  then show ?thesis by (rule power_int_le_imp_less_exp [rotated]) (use n in simp_all)
qed

lemma ilog2_zero: "ilog2 0 = - 2"
  by code_simp

lemma round_half_even_error: "\<bar>of_int (round_half_even z) - z\<bar> \<le> 1 / 2"
proof -
  have "of_int \<lfloor>z\<rfloor> \<le> z" and "z < of_int \<lfloor>z\<rfloor> + 1" by linarith+
  then show ?thesis
    by (auto simp: round_half_even_def Let_def abs_le_iff)
qed

lemma round_half_even_near: "\<bar>z - of_int k\<bar> < 1 / 2 \<Longrightarrow> round_half_even z = k"
proof -
  assume "\<bar>z - of_int k\<bar> < 1 / 2"
  with round_half_even_error [of z]
  have "\<bar>(of_int (round_half_even z) :: rat) - of_int k\<bar> < 1" by linarith
  then have "\<bar>(of_int (round_half_even z - k) :: rat)\<bar> < 1" by simp
  then have "\<bar>round_half_even z - k\<bar> < 1"
    by (metis of_int_abs of_int_less_1_iff)
  then show ?thesis by simp
qed

lemma round_double_small:
  assumes nz: "x \<noteq> 0" and small: "\<bar>x\<bar> < 2 ^ 29"
  shows "\<exists>y. round_double x = Finite y \<and> \<bar>y - x\<bar> \<le> 1 / 2 ^ 25"
proof -
  define e where "e = max (ilog2 x) (- 1022)"
  define q where "q = (2::rat) powi (e - 52)"
  define y where "y = of_int (round_half_even (x / q)) * q"
  from small have "\<bar>x\<bar> < 2 powi 29" by simp
  from ilog2_less [OF nz this] have "e \<le> 28" by (simp add: e_def)
  then have "q \<le> 2 powi (- 24)"
    unfolding q_def by (intro power_int_increasing) simp_all
  then have q24: "q \<le> 1 / 2 ^ 24" by (simp add: inverse_eq_divide)
  have qpos: "0 < q" by (simp add: q_def)
  have "y - x = (of_int (round_half_even (x / q)) - x / q) * q"
    using qpos by (simp add: y_def field_simps)
  then have "\<bar>y - x\<bar> = \<bar>of_int (round_half_even (x / q)) - x / q\<bar> * q"
    using qpos by (simp add: abs_mult)
  also have "\<dots> \<le> 1 / 2 * q"
    using qpos round_half_even_error [of "x / q"] by (intro mult_right_mono) simp_all
  also have "\<dots> \<le> 1 / 2 ^ 25" using q24 by simp
  finally have err: "\<bar>y - x\<bar> \<le> 1 / 2 ^ 25" .
  have "ilog2 y < 1024"
  proof (cases "y = 0")
    case True
    then show ?thesis by (simp add: ilog2_zero)
  next
    case False
    from err have "\<bar>y - x\<bar> \<le> 1" by (rule order_trans) simp
    with small have "\<bar>y\<bar> < 2 powi 30" by (simp; linarith)
    from ilog2_less [OF False this] show ?thesis by simp
  qed
  then have "round_double x = Finite y"
    using nz by (simp add: round_double_def Let_def e_def q_def y_def)
  with err show ?thesis by blast
qed

lemma int_truediv_small:
  assumes "\<bar>v\<bar> < 5368709120000000"
  shows "\<exists>y. int_truediv v 10000000 = Inr (Finite y)
            \<and> \<bar>y * 10000000 - of_int v\<bar> < 1 / 2 \<and> (y < 0 \<longleftrightarrow> v < 0)"
proof (cases "v = 0")
  case True
  then show ?thesis by (simp add: int_truediv_def round_double_def)
next
  case False
  let ?x = "of_int v / 10000000 :: rat"
  from False have nz: "?x \<noteq> 0" by simp
  from assms have "\<bar>of_int v :: rat\<bar> < 5368709120000000"
    by (metis of_int_abs of_int_less_numeral_iff)
  then have small: "\<bar>?x\<bar> < 2 ^ 29" by simp
  from round_double_small [OF nz small] obtain y where
    y: "round_double ?x = Finite y" and err: "\<bar>y - ?x\<bar> \<le> 1 / 2 ^ 25" by blast
  have "y * 10000000 - of_int v = (y - ?x) * 10000000" by (simp add: algebra_simps)
  then have "\<bar>y * 10000000 - of_int v\<bar> = \<bar>(y - ?x) * 10000000\<bar>" by (simp only:)
  also have "\<dots> = \<bar>y - ?x\<bar> * 10000000" by (simp only: abs_mult; simp)
  finally have "\<bar>y * 10000000 - of_int v\<bar> = \<bar>y - ?x\<bar> * 10000000" .
  with err have e: "\<bar>y * 10000000 - of_int v\<bar> < 1 / 2" by simp
  have s: "y < 0 \<longleftrightarrow> v < 0"
  proof (cases "v < 0")
    case True
    then have "v \<le> - 1" by simp
    then have "(of_int v :: rat) \<le> of_int (- 1)" by (simp only: of_int_le_iff)
    then have "(of_int v :: rat) \<le> - 1" by simp
    with e True show ?thesis by linarith
  next
    case False2: False
    with False have "1 \<le> v" by simp
    then have "(of_int 1 :: rat) \<le> of_int v" by (simp only: of_int_le_iff)
    then have "(1 :: rat) \<le> of_int v" by simp
    with e False2 show ?thesis by linarith
  qed
  from y e s show ?thesis by (simp add: int_truediv_def)
qed

lemma digit_char_props:
  assumes "0 \<le> d" and "d < 10"
  shows "is_digit (digit_char d)" and "digit_value (digit_char d) = d"
proof -
  from assms have "d = 0 \<or> d = 1 \<or> d = 2 \<or> d = 3 \<or> d = 4 \<or> d = 5 \<or> d = 6 \<or> d = 7
      \<or> d = 8 \<or> d = 9" by presburger
  then show "is_digit (digit_char d)" and "digit_value (digit_char d) = d"
    by (auto simp: digit_char_def is_digit_def digit_value_def)
qed

lemma is_digit_plain:
  "is_digit c \<Longrightarrow> c \<noteq> CHR ''.'' \<and> c \<noteq> CHR ''-'' \<and> c \<noteq> CHR ''+''"
  by (auto simp: is_digit_def)

lemma digits_value_snoc: "digits_value (ds @ [c]) = 10 * digits_value ds + digit_value c"
  by (simp add: digits_value_def)

lemma str_of_nonneg_digits:
  "0 \<le> n \<Longrightarrow>
   str_of_nonneg n \<noteq> [] \<and> list_all is_digit (str_of_nonneg n)
   \<and> digits_value (str_of_nonneg n) = n"
proof (induction n rule: str_of_nonneg.induct)
  case (1 n)
  show ?case
  proof (cases "n < 10")
    case True
    with "1.prems" digit_char_props [of n] show ?thesis
      by (subst (1 2 3) str_of_nonneg.simps) (simp add: digits_value_def)
  next
    case False
    with "1.prems" have q: "0 \<le> n div 10" by simp
    have r: "0 \<le> n mod 10" "n mod 10 < 10" by simp_all
    from "1.IH" [OF False q] digit_char_props [OF r] False show ?thesis
      by (subst (1 2 3) str_of_nonneg.simps) (simp add: digits_value_snoc)
  qed
qed

lemma str_of_nonneg_length:
  "0 \<le> n \<Longrightarrow> n < 10 ^ k \<Longrightarrow> 0 < k \<Longrightarrow> length (str_of_nonneg n) \<le> k"
proof (induction n arbitrary: k rule: str_of_nonneg.induct)
  case (1 n)
  show ?case
  proof (cases "n < 10")
    case True
    with "1.prems" show ?thesis by (subst str_of_nonneg.simps) simp
  next
    case False
    obtain j where k: "k = Suc j" using "1.prems"(3) by (cases k) simp_all
    have "j \<noteq> 0"
    proof
      assume "j = 0"
      with "1.prems"(2) have "n < 10" by (simp add: k)
      with False show False ..
    qed
    then have j: "0 < j" by simp
    from "1.prems"(2) have "n div 10 < 10 ^ j" by (simp add: k)
    moreover from "1.prems"(1) have "0 \<le> n div 10" by simp
    ultimately have "length (str_of_nonneg (n div 10)) \<le> j"
      using "1.IH" [OF False] j by blast
    with False show ?thesis by (subst str_of_nonneg.simps) (simp add: k)
  qed
qed

lemma digits_value_zeros: "digits_value (replicate k CHR ''0'' @ ds) = digits_value ds"
proof -
  have "foldl (\<lambda>a c. 10 * a + digit_value c) 0 (replicate k CHR ''0'') = 0"
    by (induction k) (simp_all add: digit_value_def)
  then show ?thesis by (simp add: digits_value_def)
qed

lemma zero_fill_digits:
  assumes "list_all is_digit ds" and "length ds \<le> w"
  shows "list_all is_digit (zero_fill w ds)" and "length (zero_fill w ds) = w"
    and "digits_value (zero_fill w ds) = digits_value ds"
proof -
  have z: "is_digit CHR ''0''" by (simp add: is_digit_def)
  from assms(1) z show "list_all is_digit (zero_fill w ds)"
    by (auto simp: zero_fill_def list_all_iff)
  from assms(2) show "length (zero_fill w ds) = w"
    by (simp add: zero_fill_def)
  show "digits_value (zero_fill w ds) = digits_value ds"
    by (simp add: zero_fill_def digits_value_zeros)
qed

lemma parse_unsigned_point:
  assumes ip: "list_all is_digit ip" and ne: "ip \<noteq> []" and fp: "list_all is_digit fp"
  shows "parse_unsigned (ip @ ''.'' @ fp)
           = Some (of_int (digits_value ip) + of_int (digits_value fp) / 10 ^ length fp)"
proof -
  have nd: "\<not> is_digit CHR ''.''" by (simp add: is_digit_def)
  from ip have all: "\<And>x. x \<in> set ip \<Longrightarrow> is_digit x" by (simp add: list_all_iff)
  have t: "takeWhile is_digit (ip @ CHR ''.'' # fp) = ip"
    using all nd by (simp add: takeWhile_append2)
  have d: "dropWhile is_digit (ip @ CHR ''.'' # fp) = CHR ''.'' # fp"
    using all nd by (simp add: dropWhile_append2)
  show ?thesis
    using ne fp by (simp add: parse_unsigned_def Let_def t d)
qed

lemma parse_decimal_string: "parse_decimal (decimal_string v) = Some (of_int v / 10000000)"
proof -
  let ?a = "\<bar>v\<bar> div 10000000" and ?b = "\<bar>v\<bar> mod 10000000"
  let ?ip = "str_of_nonneg ?a" and ?fp = "zero_fill 7 (str_of_nonneg ?b)"
  have a: "0 \<le> ?a" and b: "0 \<le> ?b" "?b < 10 ^ 7" by simp_all
  note A = str_of_nonneg_digits [OF a]
  note B = str_of_nonneg_digits [OF b(1)]
  from str_of_nonneg_length [OF b] have len: "length (str_of_nonneg ?b) \<le> 7" by simp
  from B have Bd: "list_all is_digit (str_of_nonneg ?b)" by simp
  note F = zero_fill_digits [OF Bd len]
  from A have ipd: "list_all is_digit ?ip" and ipn: "?ip \<noteq> []" by simp_all
  have "parse_unsigned (?ip @ ''.'' @ ?fp)
          = Some (of_int (digits_value ?ip) + of_int (digits_value ?fp) / 10 ^ length ?fp)"
    by (rule parse_unsigned_point [OF ipd ipn F(1)])
  also have "\<dots> = Some (of_int ?a + of_int ?b / 10000000)"
    using A B F by simp
  also have "of_int ?a + of_int ?b / 10000000 = (of_int \<bar>v\<bar> / 10000000 :: rat)"
  proof -
    have "?a * 10000000 + ?b = \<bar>v\<bar>" by (rule div_mult_mod_eq)
    then have "(of_int \<bar>v\<bar> :: rat) = of_int (?a * 10000000 + ?b)" by (simp only:)
    also have "\<dots> = of_int ?a * 10000000 + of_int ?b"
      by (simp only: of_int_add of_int_mult of_int_numeral)
    finally have "(of_int \<bar>v\<bar> :: rat) / 10000000
        = (of_int ?a * 10000000 + of_int ?b) / 10000000" by (simp only:)
    also have "\<dots> = of_int ?a + of_int ?b / 10000000"
      by (simp only: add_divide_distrib; simp)
    finally show ?thesis by (simp only:)
  qed
  finally have u: "parse_unsigned (?ip @ ''.'' @ ?fp) = Some (of_int \<bar>v\<bar> / 10000000)" .
  obtain c r where cr: "?ip = c # r" using ipn by (cases ?ip) simp_all
  with ipd have "is_digit c" by simp
  from is_digit_plain [OF this] have c: "c \<noteq> CHR ''-''" "c \<noteq> CHR ''+''" by simp_all
  show ?thesis
  proof (cases "v < 0")
    case True
    then have "decimal_string v = CHR ''-'' # (?ip @ ''.'' @ ?fp)"
      by (simp add: decimal_string_def)
    with u True show ?thesis by (simp add: parse_decimal_def)
  next
    case False
    then have s: "decimal_string v = ?ip @ ''.'' @ ?fp"
      by (simp add: decimal_string_def)
    have "parse_decimal (?ip @ ''.'' @ ?fp) = parse_unsigned (?ip @ ''.'' @ ?fp)"
      using c by (simp add: parse_decimal_def cr)
    with u False s show ?thesis by simp
  qed
qed

lemma fixed_point_shape:
  assumes "0 \<le> n" and "CHR ''.'' \<notin> set sign"
  shows "\<exists>ip fp. sign @ str_of_nonneg (n div 10000000) @ ''.''
                   @ zero_fill 7 (str_of_nonneg (n mod 10000000)) = ip @ ''.'' @ fp
           \<and> CHR ''.'' \<notin> set ip \<and> length fp = 7 \<and> list_all is_digit fp"
proof -
  let ?a = "n div 10000000" and ?b = "n mod 10000000"
  let ?ip = "sign @ str_of_nonneg ?a"
  let ?fp = "zero_fill 7 (str_of_nonneg ?b)"
  from assms(1) have a: "0 \<le> ?a" by simp
  have b: "0 \<le> ?b" "?b < 10 ^ 7" by simp_all
  from str_of_nonneg_digits [OF a] have "list_all is_digit (str_of_nonneg ?a)" by simp
  then have "CHR ''.'' \<notin> set (str_of_nonneg ?a)"
    using is_digit_plain by (auto simp: list_all_iff)
  with assms(2) have 1: "CHR ''.'' \<notin> set ?ip" by simp
  from str_of_nonneg_length [OF b] have len: "length (str_of_nonneg ?b) \<le> 7" by simp
  from str_of_nonneg_digits [OF b(1)] have "list_all is_digit (str_of_nonneg ?b)" by simp
  from zero_fill_digits [OF this len] have 2: "list_all is_digit ?fp" "length ?fp = 7"
    by simp_all
  have "sign @ str_of_nonneg ?a @ ''.'' @ ?fp = ?ip @ ''.'' @ ?fp" by simp
  with 1 2 show ?thesis by blast
qed

lemma round_double_not_nan: "round_double x \<noteq> NaN"
  by (simp add: round_double_def Let_def)

lemma format_decimal_shape:
  assumes "format_decimal v = Inr s"
  shows "\<exists>ip fp. s = ip @ ''.'' @ fp \<and> CHR ''.'' \<notin> set ip
           \<and> length fp = 7 \<and> list_all is_digit fp"
proof -
  from assms obtain a where a: "int_truediv v 10000000 = Inr a" and s: "s = format_7f a"
    by (auto simp: format_decimal_def split: sum.splits)
  from a round_double_not_nan [of "of_int v / of_int 10000000"]
  obtain x where x: "a = Finite x"
    by (cases "round_double (of_int v / of_int 10000000)")
      (auto simp: int_truediv_def split: if_splits)
  let ?n = "\<bar>round_half_even (x * 10000000)\<bar>"
  let ?sign = "if x < 0 then ''-'' else []"
  have n: "0 \<le> ?n" by simp
  have d: "CHR ''.'' \<notin> set ?sign" by simp
  have "s = ?sign @ str_of_nonneg (?n div 10000000) @ ''.''
              @ zero_fill 7 (str_of_nonneg (?n mod 10000000))"
    by (simp add: s x format_7f_def Let_def)
  with fixed_point_shape [OF n d] show ?thesis by simp
qed

lemma format_decimal_small:
  assumes "\<bar>v\<bar> < 5368709120000000"
  shows "format_decimal v = Inr (decimal_string v)"
proof -
  from int_truediv_small [OF assms] obtain y where
    y: "int_truediv v 10000000 = Inr (Finite y)"
    and e: "\<bar>y * 10000000 - of_int v\<bar> < 1 / 2" and s: "y < 0 \<longleftrightarrow> v < 0" by blast
  from round_half_even_near [OF e] have "round_half_even (y * 10000000) = v" .
  with y s show ?thesis
    by (simp add: format_decimal_def format_7f_def decimal_string_def Let_def)
qed

text \<open>On a decimal string, \<^verbatim>\<open>float\<close> gives the float nearest to its value.\<close>

lemma plain_char_props:
  assumes "plain_char c"
  shows "\<not> is_space c" and "c \<noteq> CHR ''_''" and "c \<noteq> CHR ''e''" and "c \<noteq> CHR ''E''"
    and "ascii_lower c = c" and "c \<noteq> CHR ''i''" and "c \<noteq> CHR ''n''"
  using assms
  by (auto simp: plain_char_def is_digit_def is_space_def ascii_lower_def)

lemma parse_unsigned_plain:
  assumes "parse_unsigned u = Some y"
  shows "u \<noteq> []" and "\<forall>c \<in> set u. plain_char c"
proof -
  let ?ip = "takeWhile is_digit u" and ?rest = "dropWhile is_digit u"
  have u: "u = ?ip @ ?rest" by simp
  have ip: "\<forall>c \<in> set ?ip. is_digit c" by (auto dest: set_takeWhileD)
  show "u \<noteq> []"
    using assms by (auto simp: parse_unsigned_def)
  show "\<forall>c \<in> set u. plain_char c"
  proof (cases ?rest)
    case Nil
    with ip u show ?thesis by (simp add: plain_char_def)
  next
    case (Cons c fp)
    with assms have "c = CHR ''.''" and "list_all is_digit fp"
      by (auto simp: parse_unsigned_def Let_def split: if_splits)
    then have "\<forall>c \<in> set ?rest. plain_char c"
      by (auto simp: Cons plain_char_def list_all_iff)
    moreover have "set u = set ?ip \<union> set ?rest"
      using set_append [of ?ip ?rest] by simp
    ultimately show ?thesis
      using ip by (auto simp: plain_char_def)
  qed
qed

lemma strip_no_space: "\<forall>c \<in> set t. \<not> is_space c \<Longrightarrow> strip t = t"
proof -
  assume a: "\<forall>c \<in> set t. \<not> is_space c"
  have d: "dropWhile is_space xs = xs" if "\<forall>c \<in> set xs. \<not> is_space c" for xs
    using that by (cases xs) simp_all
  from a have "dropWhile is_space t = t" by (rule d)
  moreover from a have "dropWhile is_space (rev t) = rev t" by (intro d) simp
  ultimately show ?thesis by (simp add: strip_def)
qed

lemma float_of_body:
  assumes "parse_unsigned u = Some y"
  shows "map ascii_lower u = u" and "u \<noteq> ''inf''" and "u \<noteq> ''infinity''" and "u \<noteq> ''nan''"
    and "parse_number u = Some y"
proof -
  note p = parse_unsigned_plain [OF assms]
  from p(2) show "map ascii_lower u = u"
    by (simp add: plain_char_props map_idI)
  obtain c r where cr: "u = c # r" using p(1) by (cases u) simp_all
  with p(2) have "plain_char c" by simp
  from plain_char_props [OF this] cr
  show "u \<noteq> ''inf''" and "u \<noteq> ''infinity''" and "u \<noteq> ''nan''" by auto
  from p(2) have "\<forall>c \<in> set u. c \<noteq> CHR ''e'' \<and> c \<noteq> CHR ''E''"
    by (auto dest: plain_char_props)
  then have tw: "takeWhile (\<lambda>c. c \<noteq> CHR ''e'' \<and> c \<noteq> CHR ''E'') u = u"
    and dw: "dropWhile (\<lambda>c. c \<noteq> CHR ''e'' \<and> c \<noteq> CHR ''E'') u = []"
    by simp_all
  show "parse_number u = Some y"
    unfolding parse_number_def Let_def tw dw by (simp add: assms)
qed

lemma float_of_str_clean:
  assumes "CHR ''_'' \<notin> set s" and "\<forall>c \<in> set s. \<not> is_space c"
  shows "float_of_str s =
     (let (neg, body) = (case s of
                           [] \<Rightarrow> (False, s)
                         | c # r \<Rightarrow>
                             if c = CHR ''-'' then (True, r)
                             else if c = CHR ''+'' then (False, r) else (False, s));
          low = map ascii_lower body
      in if low = ''inf'' \<or> low = ''infinity'' then Inr (Infinity neg)
         else if low = ''nan'' then Inr NaN
         else case parse_number body of
                None \<Rightarrow> Inl ValueError
              | Some x \<Rightarrow> Inr (round_double (if neg then - x else x)))"
proof -
  from assms(1) have f: "filter (\<lambda>c. c \<noteq> CHR ''_'') s = s"
    by (auto simp: filter_id_conv)
  from assms(2) have st: "strip s = s" by (rule strip_no_space)
  show ?thesis
    unfolding float_of_str_def f st using assms(1) by simp
qed

lemma float_of_str_plain:
  assumes "parse_decimal s = Some x"
  shows "float_of_str s = Inr (round_double x)"
proof -
  from assms obtain c r where s: "s = c # r" by (cases s) (simp_all add: parse_decimal_def)
  have sg: "\<not> is_space CHR ''-''" "\<not> is_space CHR ''+''" by (simp_all add: is_space_def)
  consider (minus) y where "c = CHR ''-''" "parse_unsigned r = Some y" "x = - y"
    | (plus) "c = CHR ''+''" "parse_unsigned r = Some x"
    | (none) "c \<noteq> CHR ''-''" "c \<noteq> CHR ''+''" "parse_unsigned s = Some x"
    using assms by (auto simp: parse_decimal_def s split: if_splits)
  then show ?thesis
  proof cases
    case minus
    note p = parse_unsigned_plain [OF minus(2)]
    from p(2) have u: "CHR ''_'' \<notin> set s" by (auto simp: s minus(1) dest: plain_char_props)
    from p(2) sg have sp: "\<forall>c \<in> set s. \<not> is_space c"
      by (auto simp: s minus(1) dest: plain_char_props)
    from float_of_body [OF minus(2)] show ?thesis
      unfolding float_of_str_clean [OF u sp] by (simp add: s minus)
  next
    case plus
    note p = parse_unsigned_plain [OF plus(2)]
    from p(2) have u: "CHR ''_'' \<notin> set s" by (auto simp: s plus(1) dest: plain_char_props)
    from p(2) sg have sp: "\<forall>c \<in> set s. \<not> is_space c"
      by (auto simp: s plus(1) dest: plain_char_props)
    from float_of_body [OF plus(2)] show ?thesis
      unfolding float_of_str_clean [OF u sp] by (simp add: s plus)
  next
    case none
    note p = parse_unsigned_plain [OF none(3)]
    from p(2) have u: "CHR ''_'' \<notin> set s" by (auto dest: plain_char_props)
    from p(2) have sp: "\<forall>c \<in> set s. \<not> is_space c" by (auto dest: plain_char_props)
    have cs: "(case s of
                 [] \<Rightarrow> (False, s)
               | c # r \<Rightarrow>
                   if c = CHR ''-'' then (True, r)
                   else if c = CHR ''+'' then (False, r) else (False, s)) = (False, s)"
      by (simp add: s none(1,2))
    from float_of_body [OF none(3)] show ?thesis
      unfolding float_of_str_clean [OF u sp] cs by (simp add: Let_def)
  qed
qed

lemma to_scaled_plain:
  "parse_decimal s = Some x \<Longrightarrow>
   to_scaled s = int_of_float (float_mul (round_double x) (Finite 10000000))"
  by (simp add: to_scaled_def float_of_str_plain)

section \<open>Facts about the serialisation\<close>

lemma format_levels_length: "format_levels levels = Inr out \<Longrightarrow> length out = length levels"
proof (induction levels arbitrary: out rule: format_levels.induct)
  case 1
  then show ?case by simp
next
  case (2 price qty rest)
  then show ?case by (auto split: sum.splits)
qed

lemma slice_to_length: "0 \<le> n \<Longrightarrow> length (slice_to xs n) \<le> nat n"
  by (simp add: slice_to_def)

lemma to_json_depth:
  assumes "0 \<le> depth ob" and "to_json ob = Inr j"
  shows "length (json_bids j) \<le> nat (depth ob)" and "length (json_asks j) \<le> nat (depth ob)"
    and "lastUpdateId j = last_update_id ob"
proof -
  from assms(2) obtain bs as where
    bs: "format_levels (slice_to (bids ob) (depth ob)) = Inr bs"
    and as: "format_levels (slice_to (asks ob) (depth ob)) = Inr as"
    and j: "j = \<lparr>lastUpdateId = last_update_id ob, json_bids = bs, json_asks = as\<rparr>"
    by (auto simp: to_json_def split: sum.splits)
  from format_levels_length [OF bs] slice_to_length [OF assms(1), of "bids ob"]
  show "length (json_bids j) \<le> nat (depth ob)" by (simp add: j)
  from format_levels_length [OF as] slice_to_length [OF assms(1), of "asks ob"]
  show "length (json_asks j) \<le> nat (depth ob)" by (simp add: j)
  show "lastUpdateId j = last_update_id ob" by (simp add: j)
qed

lemma slice_to_negative: "slice_to [a, b, c] (- 1) = [a, b]"
  by (simp add: slice_to_def)

section \<open>Facts about delta frames\<close>

lemma be_uint_Cons: "be_uint (b # bs) = uint b * 256 ^ length bs + be_uint bs"
proof -
  have "foldl (\<lambda>a b. 256 * a + uint b) a bs = a * 256 ^ length bs + be_uint bs" for a
  proof (induction bs arbitrary: a)
    case Nil
    then show ?case by (simp add: be_uint_def)
  next
    case (Cons x xs)
    have "foldl (\<lambda>a b. 256 * a + uint b) a (x # xs)
            = (256 * a + uint x) * 256 ^ length xs + be_uint xs"
      by (simp add: Cons.IH [of "256 * a + uint x"])
    moreover have "be_uint (x # xs) = uint x * 256 ^ length xs + be_uint xs"
      by (simp add: be_uint_def Cons.IH [of "uint x"])
    ultimately show ?case by (simp add: algebra_simps)
  qed
  from this [of "uint b"] show ?thesis by (simp add: be_uint_def)
qed

lemma length_be_bytes [simp]: "length (be_bytes n v) = n"
  by (simp add: be_bytes_def)

lemma be_bytes_Suc: "be_bytes (Suc n) v = word_of_int (v div 256 ^ n) # be_bytes n v"
  by (simp add: be_bytes_def)

lemma be_uint_be_bytes: "be_uint (be_bytes n v) = v mod 256 ^ n"
proof (induction n)
  case 0
  then show ?case by (simp add: be_bytes_def be_uint_def)
next
  case (Suc n)
  have "uint (word_of_int (v div 256 ^ n) :: byte) = (v div 256 ^ n) mod 256"
    by (simp add: uint_word_of_int take_bit_eq_mod)
  then have "be_uint (be_bytes (Suc n) v) = (v div 256 ^ n) mod 256 * 256 ^ n + v mod 256 ^ n"
    by (simp add: be_bytes_Suc be_uint_Cons Suc.IH)
  also have "\<dots> = v mod (256 ^ n * 256)"
  proof -
    have "v mod (256 ^ n * 256) = 256 ^ n * (v div 256 ^ n mod 256) + v mod 256 ^ n"
      by (rule zmod_zmult2_eq) simp
    then show ?thesis by (simp only: mult.commute [of "256 ^ n" "v div 256 ^ n mod 256"])
  qed
  finally show ?case by (simp add: mult.commute)
qed

lemma be_uint_range: "0 \<le> be_uint bs \<and> be_uint bs < 256 ^ length bs"
proof (induction bs)
  case Nil
  then show ?case by (simp add: be_uint_def)
next
  case (Cons b bs)
  have "uint b < 256" using uint_bounded [of b] by simp
  then have "uint b + 1 \<le> 256" by simp
  then have "(uint b + 1) * 256 ^ length bs \<le> 256 * 256 ^ length bs"
    by (rule mult_right_mono) simp
  then have hi: "uint b * 256 ^ length bs + 256 ^ length bs \<le> 256 * 256 ^ length bs"
    by (simp only: distrib_right mult_1)
  have lo: "0 \<le> uint b * 256 ^ length bs" by simp
  from Cons hi lo show ?case
    unfolding be_uint_Cons length_Cons power_Suc by linarith
qed

lemma unpack_pack:
  assumes "0 \<le> side" "side < 2 ^ 16" and "0 \<le> ordinal" "ordinal < 2 ^ 64"
    and "0 \<le> price" "price < 2 ^ 64" and "0 \<le> quantity" "quantity < 2 ^ 64"
  shows "unpack_HQQQ (pack_HQQQ side ordinal price quantity)
           = Inr (side, ordinal, price, quantity)"
    and "message_len (pack_HQQQ side ordinal price quantity) = 26"
proof -
  have m: "v mod 256 ^ 2 = v" if "0 \<le> v" "v < 2 ^ 16" for v :: int
    using that by simp
  have n: "v mod 256 ^ 8 = v" if "0 \<le> v" "v < 2 ^ 64" for v :: int
    using that by simp
  show "message_len (pack_HQQQ side ordinal price quantity) = 26"
    by (simp add: pack_HQQQ_def)
  show "unpack_HQQQ (pack_HQQQ side ordinal price quantity)
           = Inr (side, ordinal, price, quantity)"
    using assms by (simp add: pack_HQQQ_def be_uint_be_bytes m n)
qed

lemma unpack_range:
  assumes "unpack_HQQQ message = Inr (side, ordinal, price, quantity)"
  shows "0 \<le> side \<and> side < 2 ^ 16" and "0 \<le> ordinal \<and> ordinal < 2 ^ 64"
    and "0 \<le> price \<and> price < 2 ^ 64" and "0 \<le> quantity \<and> quantity < 2 ^ 64"
proof -
  from assms obtain bs where b: "message = Binary bs" and l: "length bs = 26"
    and s: "side = be_uint (take 2 bs)" and o: "ordinal = be_uint (take 8 (drop 2 bs))"
    and p: "price = be_uint (take 8 (drop 10 bs))"
    and q: "quantity = be_uint (take 8 (drop 18 bs))"
    by (cases message) (auto split: if_splits)
  from be_uint_range [of "take 2 bs"] l show "0 \<le> side \<and> side < 2 ^ 16"
    by (simp add: s)
  from be_uint_range [of "take 8 (drop 2 bs)"] l show "0 \<le> ordinal \<and> ordinal < 2 ^ 64"
    by (simp add: o)
  from be_uint_range [of "take 8 (drop 10 bs)"] l show "0 \<le> price \<and> price < 2 ^ 64"
    by (simp add: p)
  from be_uint_range [of "take 8 (drop 18 bs)"] l show "0 \<le> quantity \<and> quantity < 2 ^ 64"
    by (simp add: q)
qed

section \<open>Facts about the stream loop\<close>

lemma process_delta_book: "order_book (process_delta c m) = apply_delta (order_book c) m"
  by (auto simp: process_delta_def apply_delta_def Let_def split: sum.splits prod.splits)

lemma process_delta_below:
  "\<not> reaches_target (target_ordinal c) m \<Longrightarrow> process_delta c m = c\<lparr>order_book := apply_delta (order_book c) m\<rparr>"
  by (auto simp: process_delta_def apply_delta_def reaches_target_def frame_ordinal_def Let_def
      split: sum.splits prod.splits if_splits)

lemma process_delta_reaches:
  "reaches_target (target_ordinal c) m \<Longrightarrow>
   process_delta c m =
     c\<lparr>order_book := apply_delta (order_book c) m,
       running := False,
       validations := validations c @ [to_json (apply_delta (order_book c) m)]\<rparr>"
  by (auto simp: process_delta_def apply_delta_def reaches_target_def frame_ordinal_def Let_def
      validate_order_book_def split: sum.splits prod.splits if_splits)

lemma receive_messages_stopped: "\<not> running c \<Longrightarrow> receive_messages c ms = c"
  by (cases ms) simp_all

lemma stream_loop_stopped: "\<not> running c \<Longrightarrow> stream_loop c conns = c"
  by (cases conns) simp_all

lemma receive_messages_below:
  "running c \<Longrightarrow> \<forall>m \<in> set ms. \<not> reaches_target (target_ordinal c) m \<Longrightarrow>
   receive_messages c ms = c\<lparr>order_book := foldl apply_delta (order_book c) ms\<rparr>"
proof (induction ms arbitrary: c)
  case Nil
  then show ?case by simp
next
  case (Cons m ms)
  let ?c = "c\<lparr>order_book := apply_delta (order_book c) m\<rparr>"
  from Cons.prems have step: "process_delta c m = ?c"
    by (simp add: process_delta_below)
  have r: "running ?c" using Cons.prems by simp
  have b: "\<forall>x \<in> set ms. \<not> reaches_target (target_ordinal ?c) x"
    using Cons.prems by simp
  from Cons.IH [OF r b] Cons.prems(1) show ?case
    by (simp add: step)
qed

lemma receive_messages_append:
  "receive_messages c (xs @ ys) = receive_messages (receive_messages c xs) ys"
proof (induction xs arbitrary: c)
  case Nil
  then show ?case by simp
next
  case (Cons x xs)
  then show ?case by (simp add: receive_messages_stopped)
qed

lemma receive_messages_trigger:
  assumes "running c" and "\<forall>x \<in> set pre. \<not> reaches_target (target_ordinal c) x" and "reaches_target (target_ordinal c) m"
  shows "receive_messages c (pre @ m # post) =
           c\<lparr>order_book := foldl apply_delta (order_book c) (pre @ [m]),
             running := False,
             validations := validations c
               @ [to_json (foldl apply_delta (order_book c) (pre @ [m]))]\<rparr>"
proof -
  let ?c = "c\<lparr>order_book := foldl apply_delta (order_book c) pre\<rparr>"
  from assms have 1: "receive_messages c pre = ?c"
    by (simp add: receive_messages_below)
  from assms(3) have t: "reaches_target (target_ordinal ?c) m" by simp
  from assms(1) have r: "running ?c" by simp
  have "receive_messages ?c (m # post) = process_delta ?c m"
    using r by (simp add: receive_messages_stopped process_delta_reaches [OF t])
  then show ?thesis
    by (simp add: receive_messages_append 1 process_delta_reaches [OF t])
qed

lemma stream_loop_below:
  "running c \<Longrightarrow> \<forall>m \<in> set (concat before). \<not> reaches_target (target_ordinal c) m \<Longrightarrow>
   stream_loop c (before @ rest) =
     stream_loop (c\<lparr>order_book := foldl apply_delta (order_book c) (concat before),
                    connections := connections c + length before\<rparr>) rest"
proof (induction before arbitrary: c)
  case Nil
  then show ?case by simp
next
  case (Cons conn before)
  let ?c0 = "c\<lparr>connections := connections c + 1\<rparr>"
  let ?c1 = "?c0\<lparr>order_book := foldl apply_delta (order_book ?c0) conn\<rparr>"
  have r0: "running ?c0" using Cons.prems by simp
  have b0: "\<forall>m \<in> set conn. \<not> reaches_target (target_ordinal ?c0) m"
    using Cons.prems by simp
  from receive_messages_below [OF r0 b0] have 1: "receive_messages ?c0 conn = ?c1" .
  have r1: "running ?c1" using Cons.prems by simp
  have b1: "\<forall>m \<in> set (concat before). \<not> reaches_target (target_ordinal ?c1) m"
    using Cons.prems by simp
  have "stream_loop c ((conn # before) @ rest)
          = stream_loop (receive_messages ?c0 conn) (before @ rest)"
    using Cons.prems(1) by simp
  also have "\<dots> = stream_loop ?c1 (before @ rest)"
    by (simp only: 1)
  also have "\<dots> = stream_loop
      (?c1\<lparr>order_book := foldl apply_delta (order_book ?c1) (concat before),
           connections := connections ?c1 + length before\<rparr>) rest"
    by (rule Cons.IH [OF r1 b1])
  also have "?c1\<lparr>order_book := foldl apply_delta (order_book ?c1) (concat before),
                connections := connections ?c1 + length before\<rparr>
             = c\<lparr>order_book := foldl apply_delta (order_book c) (concat (conn # before)),
                 connections := connections c + length (conn # before)\<rparr>"
    by simp
  finally show ?case .
qed

lemma stream_loop_trigger:
  assumes run: "running c"
    and below: "\<forall>x \<in> set (concat before @ pre). \<not> reaches_target (target_ordinal c) x"
    and hit: "reaches_target (target_ordinal c) m"
  shows "stream_loop c (before @ (pre @ m # post) # after) =
           c\<lparr>order_book := foldl apply_delta (order_book c) (concat before @ pre @ [m]),
             running := False,
             validations := validations c
               @ [to_json (foldl apply_delta (order_book c) (concat before @ pre @ [m]))],
             connections := connections c + length before + 1\<rparr>"
proof -
  let ?c1 = "c\<lparr>order_book := foldl apply_delta (order_book c) (concat before),
               connections := connections c + length before\<rparr>"
  let ?c2 = "?c1\<lparr>connections := connections ?c1 + 1\<rparr>"
  from below have b: "\<forall>m \<in> set (concat before). \<not> reaches_target (target_ordinal c) m" by simp
  have 1: "stream_loop c (before @ (pre @ m # post) # after)
             = stream_loop ?c1 ((pre @ m # post) # after)"
    by (rule stream_loop_below [OF run b])
  have r2: "running ?c2" using run by simp
  have b2: "\<forall>x \<in> set pre. \<not> reaches_target (target_ordinal ?c2) x"
    using below by simp
  have h2: "reaches_target (target_ordinal ?c2) m" using hit by simp
  note 2 = receive_messages_trigger [OF r2 b2 h2, of post]
  have 3: "stream_loop ?c1 ((pre @ m # post) # after)
          = stream_loop (receive_messages ?c2 (pre @ m # post)) after"
    using run by simp
  have 4: "stream_loop (receive_messages ?c2 (pre @ m # post)) after
          = receive_messages ?c2 (pre @ m # post)"
  proof (rule stream_loop_stopped)
    show "\<not> running (receive_messages ?c2 (pre @ m # post))"
      by (subst 2) simp
  qed
  have "stream_loop c (before @ (pre @ m # post) # after)
          = receive_messages ?c2 (pre @ m # post)"
    by (simp only: 1 3 4)
  also note 2
  finally show ?thesis
    by simp
qed

lemma first_trigger_split:
  assumes "\<exists>m \<in> set (concat conns). P m"
  shows "\<exists>before pre m post after.
           conns = before @ (pre @ m # post) # after \<and>
           (\<forall>x \<in> set (concat before @ pre). \<not> P x) \<and> P m"
proof -
  from assms have "\<exists>conn \<in> set conns. \<exists>m \<in> set conn. P m" by auto
  then obtain before conn after where
    s1: "conns = before @ conn # after" and c: "\<exists>m \<in> set conn. P m"
    and b: "\<forall>y \<in> set before. \<not> (\<exists>m \<in> set y. P m)"
    by (auto dest!: split_list_first_prop)
  from c obtain pre m post where
    s2: "conn = pre @ m # post" and m: "P m" and p: "\<forall>y \<in> set pre. \<not> P y"
    by (auto dest!: split_list_first_prop)
  show ?thesis
    by (intro exI [of _ before] exI [of _ pre] exI [of _ m] exI [of _ post] exI [of _ after])
      (use s1 s2 m p b in auto)
qed

section \<open>Facts about the last update id and discarded messages\<close>

lemma delta_states_head: "\<exists>rest. delta_states c ms = c # rest"
  by (cases ms) simp_all

lemma last_update_id_step:
  "last_update_id (order_book (process_delta c m)) =
     (case frame_ordinal m of None \<Rightarrow> last_update_id (order_book c) | Some n \<Rightarrow> n)"
  by (auto simp: process_delta_def frame_ordinal_def Let_def split: sum.splits prod.splits)

lemma delta_states_sorted:
  "sorted (last_update_id (order_book c) # stream_ordinals ms) \<Longrightarrow>
   sorted (map (\<lambda>s. last_update_id (order_book s)) (delta_states c ms))"
proof (induction ms arbitrary: c)
  case Nil
  then show ?case by simp
next
  case (Cons m ms)
  let ?l = "\<lambda>s. last_update_id (order_book s)"
  let ?c = "process_delta c m"
  from Cons.prems have le: "?l c \<le> ?l ?c" and s: "sorted (?l ?c # stream_ordinals ms)"
    by (auto simp: last_update_id_step stream_ordinals_def split: option.splits)
  from Cons.IH [OF s] have ih: "sorted (map ?l (delta_states ?c ms))" .
  obtain rest where r: "delta_states ?c ms = ?c # rest"
    using delta_states_head by blast
  from ih le show ?case
    by (fastforce simp: r)
qed

lemma discard_step:
  "message_len m \<noteq> 26 \<or> (\<exists>e. unpack_HQQQ m = Inl e) \<Longrightarrow> process_delta c m = c"
  by (auto simp: process_delta_def)

lemma discard_in_stream:
  assumes "process_delta (receive_messages c pre) m = receive_messages c pre"
  shows "receive_messages c (pre @ m # post) = receive_messages c (pre @ post)"
proof -
  let ?c = "receive_messages c pre"
  have "receive_messages ?c (m # post) = receive_messages ?c post"
    using assms by (simp add: receive_messages_stopped)
  then show ?thesis by (simp add: receive_messages_append)
qed

lemma well_formed_ordinals:
  "\<forall>m \<in> set ms. \<not> malformed m \<Longrightarrow> stream_ordinals ms = map (\<lambda>m. the (frame_ordinal m)) ms"
  by (induction ms) (auto simp: stream_ordinals_def malformed_def)

section \<open>Zero quantities (C1, C6)\<close>

text \<open>
  Claim C1, evaluation at the failing input. \<^verbatim>\<open>_process_snapshot\<close> stores each level
  of the snapshot with a plain assignment, so a level of quantity 0 is stored with
  quantity 0: after this snapshot the bid ledger holds the price 10000000 with quantity 0.
  The updates of the delta path never store a zero (\<open>update_never_stores_zero\<close>): there
  a quantity 0 removes the level.
\<close>

theorem snapshot_stores_zero_quantity:
  "process_snapshot (OrderBookClient 5 100)
     \<lparr>snap_lastUpdateId = 7, snap_bids = [(''1.0000000'', ''0.0000000'')], snap_asks = []\<rparr>
   = Inr \<lparr>target_ordinal = 5,
          order_book = \<lparr>depth = 100, bids = [(10000000, 0)], asks = [], last_update_id = 7\<rparr>,
          running = False, validations = [], connections = 0\<rparr>"
  by code_simp

text \<open>
  Claim C6. An update with quantity 0 for a price that the ledger holds removes the entry
  of that price: the price is no longer a key, every other price keeps its quantity and
  its place, and the ledger has one level less. For a price that the ledger does not
  hold, the update changes nothing: the whole book, and so the size of each ledger, is
  what it was. This holds for the bid side and for the ask side.
\<close>

theorem zero_quantity_removal:
  assumes "keys_unique (bids ob)" and "keys_unique (asks ob)"
  shows "(price \<in> set (od_keys (bids ob)) \<longrightarrow>
            price \<notin> set (od_keys (bids (update_bid ob price 0))) \<and>
            map_of (bids (update_bid ob price 0)) = (map_of (bids ob))(price := None) \<and>
            bids (update_bid ob price 0) = filter (\<lambda>e. fst e \<noteq> price) (bids ob) \<and>
            Suc (length (bids (update_bid ob price 0))) = length (bids ob) \<and>
            asks (update_bid ob price 0) = asks ob)
       \<and> (price \<notin> set (od_keys (bids ob)) \<longrightarrow>
            update_bid ob price 0 = ob \<and> get_size (update_bid ob price 0) = get_size ob)
       \<and> (price \<in> set (od_keys (asks ob)) \<longrightarrow>
            price \<notin> set (od_keys (asks (update_ask ob price 0))) \<and>
            map_of (asks (update_ask ob price 0)) = (map_of (asks ob))(price := None) \<and>
            asks (update_ask ob price 0) = filter (\<lambda>e. fst e \<noteq> price) (asks ob) \<and>
            Suc (length (asks (update_ask ob price 0))) = length (asks ob) \<and>
            bids (update_ask ob price 0) = bids ob)
       \<and> (price \<notin> set (od_keys (asks ob)) \<longrightarrow>
            update_ask ob price 0 = ob \<and> get_size (update_ask ob price 0) = get_size ob)"
proof -
  have b: "bids (update_bid ob price 0) = od_pop (bids ob) price"
    and a: "asks (update_ask ob price 0) = od_pop (asks ob) price"
    and ba: "asks (update_bid ob price 0) = asks ob"
    and ab: "bids (update_ask ob price 0) = bids ob"
    by (simp_all add: update_bid_def update_ask_def)
  have nb: "update_bid ob price 0 = ob" if "price \<notin> set (od_keys (bids ob))"
    using that by (simp add: update_bid_def od_pop_absent)
  have na: "update_ask ob price 0 = ob" if "price \<notin> set (od_keys (asks ob))"
    using that by (simp add: update_ask_def od_pop_absent)
  have rb: "price \<notin> set (od_keys (od_pop (bids ob) price))"
    and ra: "price \<notin> set (od_keys (od_pop (asks ob) price))"
    using assms by (simp_all add: od_pop_removes)
  have mb: "map_of (od_pop (bids ob) price) = (map_of (bids ob))(price := None)"
    and ma: "map_of (od_pop (asks ob) price) = (map_of (asks ob))(price := None)"
    using assms by (simp_all add: map_of_od_pop)
  have fb: "od_pop (bids ob) price = filter (\<lambda>e. fst e \<noteq> price) (bids ob)"
    and fa: "od_pop (asks ob) price = filter (\<lambda>e. fst e \<noteq> price) (asks ob)"
    using assms by (simp_all add: od_pop_sublist)
  have lb: "Suc (length (od_pop (bids ob) price)) = length (bids ob)"
    if "price \<in> set (od_keys (bids ob))"
    using that by (rule length_od_pop_present)
  have la: "Suc (length (od_pop (asks ob) price)) = length (asks ob)"
    if "price \<in> set (od_keys (asks ob))"
    using that by (rule length_od_pop_present)
  show ?thesis
    unfolding b a ba ab
    using rb ra mb ma fb fa lb la nb na by metis
qed

text \<open>
  Claim C6, witness: a present price is removed, an absent one changes nothing.
\<close>

theorem zero_quantity_removal_witness:
  "bids (update_bid \<lparr>depth = 100, bids = [(30, 5), (20, 7)], asks = [(40, 1)],
                     last_update_id = 3\<rparr> 20 0) = [(30, 5)]
   \<and> update_bid \<lparr>depth = 100, bids = [(30, 5), (20, 7)], asks = [(40, 1)],
                  last_update_id = 3\<rparr> 25 0
     = \<lparr>depth = 100, bids = [(30, 5), (20, 7)], asks = [(40, 1)], last_update_id = 3\<rparr>
   \<and> asks (update_ask \<lparr>depth = 100, bids = [(30, 5), (20, 7)], asks = [(40, 1)],
                       last_update_id = 3\<rparr> 40 0) = []"
  using zero_quantity_removal [of "\<lparr>depth = 100, bids = [(30, 5), (20, 7)], asks = [(40, 1)],
                     last_update_id = 3\<rparr>" 20]
    zero_quantity_removal [of "\<lparr>depth = 100, bids = [(30, 5), (20, 7)], asks = [(40, 1)],
                     last_update_id = 3\<rparr>" 25]
    zero_quantity_removal [of "\<lparr>depth = 100, bids = [(30, 5), (20, 7)], asks = [(40, 1)],
                     last_update_id = 3\<rparr>" 40]
  by (simp add: keys_unique_def od_keys_def)

section \<open>The last update id (C2)\<close>

text \<open>
  Claim C2, counterexample. The claim that every delta after the snapshot leaves the last
  update id at least as large as it was fails: after a snapshot with update id 10, a
  well-formed delta frame with ordinal 3 sets the last update id to 3.
\<close>

theorem last_sequence_can_decrease:
  "process_snapshot (OrderBookClient 100 100)
     \<lparr>snap_lastUpdateId = 10, snap_bids = [], snap_asks = []\<rparr>
   = Inr \<lparr>target_ordinal = 100,
          order_book = \<lparr>depth = 100, bids = [], asks = [], last_update_id = 10\<rparr>,
          running = False, validations = [], connections = 0\<rparr>
   \<and> last_update_id (order_book (process_delta
        \<lparr>target_ordinal = 100,
          order_book = \<lparr>depth = 100, bids = [], asks = [], last_update_id = 10\<rparr>,
          running = False, validations = [], connections = 0\<rparr>
        (pack_HQQQ 1 3 100000000 10000000))) = 3"
  by code_simp

text \<open>
  Claim C2, as amended. \<^verbatim>\<open>_process_delta\<close> sets the last update id to the ordinal of
  the frame, whatever the id was before, and leaves it unchanged for a message that it
  discards. So over a list of messages the last update id never decreases provided that
  the ordinals of the frames, starting from the update id of the current state, are
  themselves non-decreasing.
\<close>

theorem last_sequence_follows_stream:
  "last_update_id (order_book (process_delta c m)) =
     (case frame_ordinal m of None \<Rightarrow> last_update_id (order_book c) | Some n \<Rightarrow> n)
   \<and> (sorted (last_update_id (order_book c) # stream_ordinals ms) \<longrightarrow>
        sorted (map (\<lambda>s. last_update_id (order_book s)) (delta_states c ms)))"
  using last_update_id_step delta_states_sorted by blast

text \<open>
  Claim C2, witness: ordinals 11 and 12 after update id 10, with a text frame in between.
\<close>

theorem last_sequence_follows_stream_witness:
  "sorted (last_update_id (order_book
      \<lparr>target_ordinal = 100,
        order_book = \<lparr>depth = 100, bids = [], asks = [], last_update_id = 10\<rparr>,
        running = True, validations = [], connections = 1\<rparr>)
     # stream_ordinals [pack_HQQQ 1 11 100000000 5, Text ''x'', pack_HQQQ 0 12 100000000 5])
   \<and> map (\<lambda>s. last_update_id (order_book s)) (delta_states
      \<lparr>target_ordinal = 100,
        order_book = \<lparr>depth = 100, bids = [], asks = [], last_update_id = 10\<rparr>,
        running = True, validations = [], connections = 1\<rparr>
      [pack_HQQQ 1 11 100000000 5, Text ''x'', pack_HQQQ 0 12 100000000 5]) = [10, 11, 11, 12]
   \<and> sorted [10, 11, 11, 12 :: int]"
proof -
  let ?c = "\<lparr>target_ordinal = 100,
        order_book = \<lparr>depth = 100, bids = [], asks = [], last_update_id = 10\<rparr>,
        running = True, validations = [], connections = 1\<rparr>"
  let ?ms = "[pack_HQQQ 1 11 100000000 5, Text ''x'', pack_HQQQ 0 12 100000000 5]"
  have h: "sorted (last_update_id (order_book ?c) # stream_ordinals ?ms)"
    by code_simp
  have e: "map (\<lambda>s. last_update_id (order_book s)) (delta_states ?c ?ms) = [10, 11, 11, 12]"
    by code_simp
  from last_sequence_follows_stream [of ?c undefined ?ms] h
  have "sorted (map (\<lambda>s. last_update_id (order_book s)) (delta_states ?c ?ms))"
    by blast
  with h e show ?thesis by simp
qed

section \<open>Decoding the decimal strings of a snapshot (C3)\<close>

text \<open>
  Claim C3, evaluation at the failing input. The string \<^verbatim>\<open>0.0000021\<close> has the value
  \<open>21 / 10\<^sup>7\<close>, so the nearest integer to the value times \<open>10\<^sup>7\<close> is 21. The code
  computes \<^verbatim>\<open>int(float(s) * 10_000_000)\<close>: the product of the two floats is the float
  just below 21, and \<^verbatim>\<open>int\<close> truncates it to 20, which is the price that the ledger
  gets. On every decimal string the code computes the truncation of a twice rounded
  product (\<open>to_scaled_plain\<close>), not the nearest integer.
\<close>

theorem snapshot_decoding_truncates:
  "parse_decimal ''0.0000021'' = Some (21 / 10000000)
   \<and> round_half_even (21 / 10000000 * 10000000) = 21
   \<and> to_scaled ''0.0000021'' = Inr 20
   \<and> process_snapshot (OrderBookClient 5 100)
        \<lparr>snap_lastUpdateId = 7, snap_bids = [(''0.0000021'', ''1.0000000'')], snap_asks = []\<rparr>
      = Inr \<lparr>target_ordinal = 5,
             order_book = \<lparr>depth = 100, bids = [(20, 10000000)], asks = [],
                           last_update_id = 7\<rparr>,
             running = False, validations = [], connections = 0\<rparr>"
  by code_simp

section \<open>The depth parameter (C4)\<close>

text \<open>
  Claim C4, evaluation at the failing input. A client created with depth 200 requests the
  snapshot with \<^verbatim>\<open>depth=100\<close>: the URL of the request is a constant. The depth does
  bound the serialised levels when it is not negative (\<open>to_json_depth\<close>).
\<close>

theorem snapshot_request_ignores_depth:
  "depth (order_book (OrderBookClient 10000 200)) = 200
   \<and> snapshot_url (OrderBookClient 10000 200) = ''http://localhost:9090/snapshot?depth=100''"
  by (simp add: OrderBookClient_def OrderBook_def snapshot_url_def)

section \<open>Ordering of the ledgers (C5)\<close>

text \<open>
  Claim C5. In every state that the client reaches (after its creation, after the snapshot
  and after each message of the delta stream) the prices of the bid ledger, in iteration
  order, are non-increasing and the prices of the ask ledger are non-decreasing. The
  prices of a ledger are pairwise different, so the orders are even strict.
\<close>

theorem ordering_invariant:
  assumes "reachable c"
  shows "sorted_wrt (\<ge>) (od_keys (bids (order_book c)))
       \<and> sorted_wrt (\<le>) (od_keys (asks (order_book c)))
       \<and> sorted_wrt (>) (od_keys (bids (order_book c)))
       \<and> sorted_wrt (<) (od_keys (asks (order_book c)))"
proof -
  from assms have "book_ordered (order_book c)" by (rule reachable_ordered)
  then show ?thesis
    by (simp add: book_ordered_def strict_imp_weak_desc strict_imp_weak_asc)
qed

text \<open>
  Claim C5, witness: a snapshot with three levels, then a delta for a new bid price.
\<close>

theorem ordering_invariant_witness:
  "reachable (process_delta
      \<lparr>target_ordinal = 10,
        order_book = \<lparr>depth = 100, bids = [(115000000, 20000000), (100000000, 10000000)],
                      asks = [(120000000, 30000000)], last_update_id = 0\<rparr>,
        running = False, validations = [], connections = 0\<rparr>
      (pack_HQQQ 1 1 110000000 5))
   \<and> od_keys (bids (order_book (process_delta
      \<lparr>target_ordinal = 10,
        order_book = \<lparr>depth = 100, bids = [(115000000, 20000000), (100000000, 10000000)],
                      asks = [(120000000, 30000000)], last_update_id = 0\<rparr>,
        running = False, validations = [], connections = 0\<rparr>
      (pack_HQQQ 1 1 110000000 5)))) = [115000000, 110000000, 100000000]
   \<and> sorted_wrt (>) [115000000, 110000000, 100000000 :: int]"
proof -
  let ?c1 = "\<lparr>target_ordinal = 10,
        order_book = \<lparr>depth = 100, bids = [(115000000, 20000000), (100000000, 10000000)],
                      asks = [(120000000, 30000000)], last_update_id = 0\<rparr>,
        running = False, validations = [], connections = 0\<rparr>"
  let ?c2 = "process_delta ?c1 (pack_HQQQ 1 1 110000000 5)"
  have s: "process_snapshot (OrderBookClient 10 100)
             \<lparr>snap_lastUpdateId = 0,
               snap_bids = [(''10.0000000'', ''1.0000000''), (''11.5000000'', ''2.0000000'')],
               snap_asks = [(''12.0000000'', ''3.0000000'')]\<rparr> = Inr ?c1"
    by code_simp
  have r: "reachable ?c2"
    by (rule reachable.delta [OF reachable.snapshot [OF reachable.created s]])
  have k: "od_keys (bids (order_book ?c2)) = [115000000, 110000000, 100000000]"
    by code_simp
  from ordering_invariant [OF r] have "sorted_wrt (>) (od_keys (bids (order_book ?c2)))"
    by simp
  with r k show ?thesis by simp
qed

section \<open>The validation trigger (C7)\<close>

text \<open>
  Claim C7. Let the connections deliver well-formed delta frames only, with strictly
  increasing ordinals, the first one below the target and the last one at or above it.
  Then the stream splits at the first frame \<open>m\<close> whose ordinal is at or above the
  target, and at the end of \<^verbatim>\<open>_connect_websocket\<close>: the book is the one obtained from the
  frames up to and including \<open>m\<close> (no later frame is applied), exactly one validation
  has been added, and it is the serialisation of that book, \<^verbatim>\<open>running\<close> is false, and
  the connections opened are those up to the one that delivered \<open>m\<close> (no reconnection
  after the validation). The proof uses only that some frame reaches the target.
\<close>

theorem validation_triggered_once:
  assumes deltas: "\<forall>m \<in> set (concat conns). \<not> malformed m"
    and nonempty: "concat conns \<noteq> []"
    and increasing: "sorted_wrt (<) (stream_ordinals (concat conns))"
    and starts_below: "hd (stream_ordinals (concat conns)) < target_ordinal c"
    and ends_at_or_above: "target_ordinal c \<le> last (stream_ordinals (concat conns))"
  shows "\<exists>before pre m post after.
           conns = before @ (pre @ m # post) # after \<and>
           (\<forall>x \<in> set (concat before @ pre). \<not> reaches_target (target_ordinal c) x) \<and>
           reaches_target (target_ordinal c) m \<and>
           connect_websocket c conns =
             c\<lparr>order_book := foldl apply_delta (order_book c) (concat before @ pre @ [m]),
               running := False,
               validations := validations c
                 @ [to_json (foldl apply_delta (order_book c) (concat before @ pre @ [m]))],
               connections := connections c + length before + 1\<rparr>"
proof -
  let ?t = "target_ordinal c"
  let ?ms = "concat conns"
  from nonempty have l: "last ?ms \<in> set ?ms" by (rule last_in_set)
  with deltas have "\<not> malformed (last ?ms)" by blast
  then obtain n where n: "frame_ordinal (last ?ms) = Some n"
    by (auto simp: malformed_def)
  from ends_at_or_above nonempty have "?t \<le> n"
    by (simp add: well_formed_ordinals [OF deltas] last_map n)
  with n have "reaches_target ?t (last ?ms)" by (simp add: reaches_target_def)
  with l have "\<exists>m \<in> set ?ms. reaches_target ?t m" by blast
  from first_trigger_split [OF this] obtain before pre m post after where
    split: "conns = before @ (pre @ m # post) # after"
    and below: "\<forall>x \<in> set (concat before @ pre). \<not> reaches_target ?t x"
    and hit: "reaches_target ?t m"
    by blast
  let ?c = "c\<lparr>running := True\<rparr>"
  have r: "running ?c" by simp
  have b: "\<forall>x \<in> set (concat before @ pre). \<not> reaches_target (target_ordinal ?c) x"
    using below by simp
  have h: "reaches_target (target_ordinal ?c) m" using hit by simp
  have "connect_websocket c conns =
          c\<lparr>order_book := foldl apply_delta (order_book c) (concat before @ pre @ [m]),
            running := False,
            validations := validations c
              @ [to_json (foldl apply_delta (order_book c) (concat before @ pre @ [m]))],
            connections := connections c + length before + 1\<rparr>"
    unfolding connect_websocket_def split
    by (subst stream_loop_trigger [OF r b h]) simp
  with split below hit show ?thesis by blast
qed

text \<open>
  Claim C7, witness: target 5, ordinals 3 and 4 on a first connection, 5 and 6 on a
  second one; the frame of ordinal 6 is not applied.
\<close>

theorem validation_triggered_once_witness:
  "list_all (\<lambda>m. \<not> malformed m)
     (concat [[pack_HQQQ 1 3 100000000 5, pack_HQQQ 0 4 110000000 7],
              [pack_HQQQ 1 5 100000000 0, pack_HQQQ 1 6 90000000 2]])
   \<and> sorted_wrt (<) (stream_ordinals (concat [[pack_HQQQ 1 3 100000000 5, pack_HQQQ 0 4 110000000 7],
                          [pack_HQQQ 1 5 100000000 0, pack_HQQQ 1 6 90000000 2]]))
   \<and> connect_websocket (OrderBookClient 5 100)
        [[pack_HQQQ 1 3 100000000 5, pack_HQQQ 0 4 110000000 7],
         [pack_HQQQ 1 5 100000000 0, pack_HQQQ 1 6 90000000 2]]
      = \<lparr>target_ordinal = 5,
          order_book = \<lparr>depth = 100, bids = [], asks = [(110000000, 7)], last_update_id = 5\<rparr>,
          running = False,
          validations = [Inr \<lparr>lastUpdateId = 5, json_bids = [],
                               json_asks = [(''11.0000000'', ''0.0000007'')]\<rparr>],
          connections = 2\<rparr>
   \<and> (\<exists>before pre m post after.
         [[pack_HQQQ 1 3 100000000 5, pack_HQQQ 0 4 110000000 7],
          [pack_HQQQ 1 5 100000000 0, pack_HQQQ 1 6 90000000 2]]
           = before @ (pre @ m # post) # after
         \<and> length (validations (connect_websocket (OrderBookClient 5 100)
             [[pack_HQQQ 1 3 100000000 5, pack_HQQQ 0 4 110000000 7],
              [pack_HQQQ 1 5 100000000 0, pack_HQQQ 1 6 90000000 2]])) = 1
         \<and> connections (connect_websocket (OrderBookClient 5 100)
             [[pack_HQQQ 1 3 100000000 5, pack_HQQQ 0 4 110000000 7],
              [pack_HQQQ 1 5 100000000 0, pack_HQQQ 1 6 90000000 2]]) = length before + 1)"
proof -
  let ?c = "OrderBookClient 5 100"
  let ?w = "[[pack_HQQQ 1 3 100000000 5, pack_HQQQ 0 4 110000000 7],
             [pack_HQQQ 1 5 100000000 0, pack_HQQQ 1 6 90000000 2]]"
  have h1: "\<forall>m \<in> set (concat ?w). \<not> malformed m" by code_simp
  then have h1': "list_all (\<lambda>m. \<not> malformed m) (concat ?w)" by (simp only: list_all_iff)
  have h2: "concat ?w \<noteq> []" by simp
  have h3: "sorted_wrt (<) (stream_ordinals (concat ?w))" by code_simp
  have h4: "hd (stream_ordinals (concat ?w)) < target_ordinal ?c" by code_simp
  have h5: "target_ordinal ?c \<le> last (stream_ordinals (concat ?w))" by code_simp
  have e: "connect_websocket ?c ?w
      = \<lparr>target_ordinal = 5,
          order_book = \<lparr>depth = 100, bids = [], asks = [(110000000, 7)], last_update_id = 5\<rparr>,
          running = False,
          validations = [Inr \<lparr>lastUpdateId = 5, json_bids = [],
                               json_asks = [(''11.0000000'', ''0.0000007'')]\<rparr>],
          connections = 2\<rparr>"
    by code_simp
  have c0: "connections ?c = 0" and v0: "validations ?c = []"
    by (simp_all add: OrderBookClient_def)
  from validation_triggered_once [OF h1 h2 h3 h4 h5]
  obtain before pre m post after where
    s: "?w = before @ (pre @ m # post) # after"
    and f: "connect_websocket ?c ?w =
             ?c\<lparr>order_book := foldl apply_delta (order_book ?c) (concat before @ pre @ [m]),
               running := False,
               validations := validations ?c
                 @ [to_json (foldl apply_delta (order_book ?c) (concat before @ pre @ [m]))],
               connections := connections ?c + length before + 1\<rparr>"
    by blast
  have "length (validations (connect_websocket ?c ?w)) = 1"
    and "connections (connect_websocket ?c ?w) = length before + 1"
    by (simp_all add: f c0 v0)
  with s h1' h3 e show ?thesis by blast
qed

section \<open>Serialisation of the scaled integers (C8)\<close>

text \<open>
  Every string that \<^verbatim>\<open>format_decimal\<close> gives has exactly 7 digits after the point.
  For every integer \<open>v\<close> with \<open>\<bar>v\<bar> < 2\<^sup>2\<^sup>9 * 10\<^sup>7\<close> (5368709120000000) the string
  is the decimal notation of \<open>v / 10\<^sup>7\<close>: its value is exactly \<open>v / 10\<^sup>7\<close>, so that
  parsing it and rounding the value times \<open>10\<^sup>7\<close> gives \<open>v\<close> back. Up to this bound
  the floats are less than \<open>10\<^sup>-\<^sup>7\<close> apart.
\<close>

proposition format_decimal_exact_below:
  "(format_decimal v = Inr s \<longrightarrow>
      (\<exists>ip fp. s = ip @ ''.'' @ fp \<and> CHR ''.'' \<notin> set ip
         \<and> length fp = 7 \<and> list_all is_digit fp))
   \<and> (\<bar>v\<bar> < 5368709120000000 \<longrightarrow>
        format_decimal v = Inr (decimal_string v)
        \<and> parse_decimal (decimal_string v) = Some (of_int v / 10000000)
        \<and> map_option (\<lambda>r. round_half_even (r * 10000000)) (parse_decimal (decimal_string v))
            = Some v)"
proof -
  have r: "round_half_even (of_int v) = v"
    by (rule round_half_even_near) simp
  note p = parse_decimal_string [of v]
  have m: "map_option (\<lambda>r. round_half_even (r * 10000000)) (parse_decimal (decimal_string v))
             = Some v"
    by (simp add: p r)
  from format_decimal_shape [of v s] format_decimal_small [of v] p m show ?thesis by blast
qed

text \<open>A positive and a negative value below the bound.\<close>

lemma format_decimal_exact_below_example:
  "\<bar>123456789 :: int\<bar> < 5368709120000000
   \<and> format_decimal 123456789 = Inr ''12.3456789''
   \<and> parse_decimal ''12.3456789'' = Some (of_int 123456789 / 10000000)
   \<and> map_option (\<lambda>r. round_half_even (r * 10000000)) (parse_decimal ''12.3456789'')
       = Some 123456789
   \<and> \<bar>- 5 :: int\<bar> < 5368709120000000
   \<and> format_decimal (- 5) = Inr ''-0.0000005''
   \<and> parse_decimal ''-0.0000005'' = Some (of_int (- 5) / 10000000)"
proof -
  have h1: "\<bar>123456789 :: int\<bar> < 5368709120000000" and h2: "\<bar>- 5 :: int\<bar> < 5368709120000000"
    by simp_all
  have e1: "format_decimal 123456789 = Inr ''12.3456789''"
    and e2: "format_decimal (- 5) = Inr ''-0.0000005''"
    by code_simp+
  from format_decimal_exact_below [of 123456789 undefined] h1
  have a: "format_decimal 123456789 = Inr (decimal_string 123456789)"
    and b: "parse_decimal (decimal_string 123456789) = Some (of_int 123456789 / 10000000)"
    and c: "map_option (\<lambda>r. round_half_even (r * 10000000))
              (parse_decimal (decimal_string 123456789)) = Some 123456789"
    by blast+
  from a e1 have s1: "decimal_string 123456789 = ''12.3456789''" by simp
  from format_decimal_exact_below [of "- 5" undefined] h2
  have a': "format_decimal (- 5) = Inr (decimal_string (- 5))"
    and b': "parse_decimal (decimal_string (- 5)) = Some (of_int (- 5) / 10000000)"
    by blast+
  from a' e2 have s2: "decimal_string (- 5) = ''-0.0000005''" by simp
  from b c b' h1 h2 e1 e2 show ?thesis
    unfolding s1 s2 by blast
qed

text \<open>
  Claim C8, evaluation at the failing input. The value 5368709120000003 is serialised as
  \<^verbatim>\<open>536870912.0000004\<close>: the quotient by \<open>10\<^sup>7\<close> is rounded to a float, and the floats
  from \<open>2\<^sup>2\<^sup>9\<close> on are more than \<open>10\<^sup>-\<^sup>7\<close> apart. Parsing the string and scaling it
  gives 5368709120000004. The value reaches the serialisation as the quantity of a delta
  frame: the payload of the validation has the wrong digit.
\<close>

theorem format_decimal_loses_digits:
  "format_decimal 5368709120000003 = Inr ''536870912.0000004''
   \<and> parse_decimal ''536870912.0000004'' = Some (5368709120000004 / 10000000)
   \<and> round_half_even (5368709120000004 / 10000000 * 10000000) = 5368709120000004
   \<and> bids (order_book (process_delta (OrderBookClient 1 100)
        (pack_HQQQ 1 1 100000000 5368709120000003))) = [(100000000, 5368709120000003)]
   \<and> validations (process_delta (OrderBookClient 1 100)
        (pack_HQQQ 1 1 100000000 5368709120000003))
      = [Inr \<lparr>lastUpdateId = 1,
                json_bids = [(''10.0000000'', ''536870912.0000004'')], json_asks = []\<rparr>]"
  by code_simp

section \<open>Malformed messages (C9)\<close>

text \<open>
  Claim C9. A message whose length is not 26, or that \<^verbatim>\<open>struct.unpack\<close> does not decode,
  leaves the whole state of the client as it is: both ledgers, the last update id, the
  \<^verbatim>\<open>running\<close> flag. The loop over the messages of a connection goes on as if the
  message had not been there; in particular, with such a message between two frames
  \<open>f1\<close> and \<open>f2\<close>, both frames are applied (as long as the client is running, that is
  \<open>f1\<close> has not reached the target).
\<close>

theorem malformed_message_discarded:
  assumes "message_len m \<noteq> 26 \<or> (\<exists>e. unpack_HQQQ m = Inl e)"
  shows "process_delta c m = c
       \<and> receive_messages c (pre @ m # post) = receive_messages c (pre @ post)
       \<and> (running c \<and> running (process_delta c f1) \<longrightarrow>
            receive_messages c [f1, m, f2] = process_delta (process_delta c f1) f2)"
proof -
  have d: "process_delta s m = s" for s
    using assms by (rule discard_step)
  have "receive_messages c (pre @ m # post) = receive_messages c (pre @ post)"
    by (rule discard_in_stream) (rule d)
  moreover have "receive_messages c [f1, m, f2] = process_delta (process_delta c f1) f2"
    if "running c" and "running (process_delta c f1)"
    using that by (simp add: d)
  ultimately show ?thesis using d by blast
qed

text \<open>
  Claim C9, witness: a frame of 25 bytes between two frames of 26 bytes.
\<close>

theorem malformed_message_discarded_witness:
  "message_len (Binary (replicate 25 0)) \<noteq> 26
   \<and> receive_messages
       \<lparr>target_ordinal = 10,
         order_book = \<lparr>depth = 100, bids = [], asks = [], last_update_id = 0\<rparr>,
         running = True, validations = [], connections = 1\<rparr>
       [pack_HQQQ 1 1 100000000 5, Binary (replicate 25 0), pack_HQQQ 0 2 110000000 7]
     = \<lparr>target_ordinal = 10,
         order_book = \<lparr>depth = 100, bids = [(100000000, 5)], asks = [(110000000, 7)],
                       last_update_id = 2\<rparr>,
         running = True, validations = [], connections = 1\<rparr>"
proof -
  let ?c = "\<lparr>target_ordinal = 10,
         order_book = \<lparr>depth = 100, bids = [], asks = [], last_update_id = 0\<rparr>,
         running = True, validations = [], connections = 1\<rparr>"
  let ?m = "Binary (replicate 25 0)"
  let ?f1 = "pack_HQQQ 1 1 100000000 5"
  let ?f2 = "pack_HQQQ 0 2 110000000 7"
  have h: "message_len ?m \<noteq> 26" by simp
  then have h': "message_len ?m \<noteq> 26 \<or> (\<exists>e. unpack_HQQQ ?m = Inl e)" by blast
  have r: "running ?c \<and> running (process_delta ?c ?f1)" by code_simp
  have e: "process_delta (process_delta ?c ?f1) ?f2
           = \<lparr>target_ordinal = 10,
         order_book = \<lparr>depth = 100, bids = [(100000000, 5)], asks = [(110000000, 7)],
                       last_update_id = 2\<rparr>,
         running = True, validations = [], connections = 1\<rparr>"
    by code_simp
  from malformed_message_discarded [OF h', of ?c "[]" "[]" ?f1 ?f2] r
  have "receive_messages ?c [?f1, ?m, ?f2] = process_delta (process_delta ?c ?f1) ?f2"
    by blast
  with h e show ?thesis by simp
qed

section \<open>The side field (C10)\<close>

text \<open>
  Claim C10. A frame of 26 bytes that is decoded to \<open>(side, ordinal, price, quantity)\<close>
  updates the bid ledger if \<open>side = 1\<close> and the ask ledger for every other value of the
  side field, which is any number from 0 to 65535, and the ledger of the other side is
  unchanged: the update goes to the bid ledger if and only if the side is 1, and no value
  of the side is rejected. (Every binary message of 26 bytes is decoded, and
  \<open>unpack_pack\<close> gives the frame of any four values in range.)
\<close>

theorem side_routing:
  assumes "message_len m = 26"
    and "unpack_HQQQ m = Inr (side, ordinal, price, quantity)"
  shows "order_book (process_delta c m) =
           (if side = 1 then update_bid (order_book c) price quantity
            else update_ask (order_book c) price quantity)\<lparr>last_update_id := ordinal\<rparr>
       \<and> (side = 1 \<longrightarrow> asks (order_book (process_delta c m)) = asks (order_book c))
       \<and> (side \<noteq> 1 \<longrightarrow> bids (order_book (process_delta c m)) = bids (order_book c))
       \<and> 0 \<le> side \<and> side < 65536"
proof -
  have a: "asks (update_bid ob p q) = asks ob" for ob p q
    by (simp add: update_bid_def sort_bids_def)
  have b: "bids (update_ask ob p q) = bids ob" for ob p q
    by (simp add: update_ask_def sort_asks_def)
  have "order_book (validate_order_book s) = order_book s" for s
    by (simp add: validate_order_book_def)
  with assms unpack_range(1) [OF assms(2)] show ?thesis
    by (simp add: process_delta_def Let_def a b)
qed

text \<open>
  Claim C10, witness: the sides 65535 and 2 go to the asks, the side 1 to the bids.
\<close>

theorem side_routing_witness:
  "message_len (pack_HQQQ 65535 7 100000000 5) = 26
   \<and> unpack_HQQQ (pack_HQQQ 65535 7 100000000 5) = Inr (65535, 7, 100000000, 5)
   \<and> order_book (process_delta (OrderBookClient 10 100) (pack_HQQQ 65535 7 100000000 5))
     = \<lparr>depth = 100, bids = [], asks = [(100000000, 5)], last_update_id = 7\<rparr>
   \<and> message_len (pack_HQQQ 2 8 100000000 5) = 26
   \<and> unpack_HQQQ (pack_HQQQ 2 8 100000000 5) = Inr (2, 8, 100000000, 5)
   \<and> order_book (process_delta (OrderBookClient 10 100) (pack_HQQQ 2 8 100000000 5))
     = \<lparr>depth = 100, bids = [], asks = [(100000000, 5)], last_update_id = 8\<rparr>
   \<and> message_len (pack_HQQQ 1 9 100000000 5) = 26
   \<and> unpack_HQQQ (pack_HQQQ 1 9 100000000 5) = Inr (1, 9, 100000000, 5)
   \<and> order_book (process_delta (OrderBookClient 10 100) (pack_HQQQ 1 9 100000000 5))
     = \<lparr>depth = 100, bids = [(100000000, 5)], asks = [], last_update_id = 9\<rparr>"
proof -
  let ?c = "OrderBookClient 10 100"
  have l1: "message_len (pack_HQQQ 65535 7 100000000 5) = 26"
    and l2: "message_len (pack_HQQQ 2 8 100000000 5) = 26"
    and l3: "message_len (pack_HQQQ 1 9 100000000 5) = 26"
    by code_simp+
  have u1: "unpack_HQQQ (pack_HQQQ 65535 7 100000000 5) = Inr (65535, 7, 100000000, 5)"
    and u2: "unpack_HQQQ (pack_HQQQ 2 8 100000000 5) = Inr (2, 8, 100000000, 5)"
    and u3: "unpack_HQQQ (pack_HQQQ 1 9 100000000 5) = Inr (1, 9, 100000000, 5)"
    by code_simp+
  have e1: "(update_ask (order_book ?c) 100000000 5)\<lparr>last_update_id := 7\<rparr>
            = \<lparr>depth = 100, bids = [], asks = [(100000000, 5)], last_update_id = 7\<rparr>"
    and e2: "(update_ask (order_book ?c) 100000000 5)\<lparr>last_update_id := 8\<rparr>
            = \<lparr>depth = 100, bids = [], asks = [(100000000, 5)], last_update_id = 8\<rparr>"
    and e3: "(update_bid (order_book ?c) 100000000 5)\<lparr>last_update_id := 9\<rparr>
            = \<lparr>depth = 100, bids = [(100000000, 5)], asks = [], last_update_id = 9\<rparr>"
    by code_simp+
  from side_routing [OF l1 u1, of ?c] side_routing [OF l2 u2, of ?c] side_routing [OF l3 u3, of ?c]
  show ?thesis
    by (simp add: l1 l2 l3 u1 u2 u3 e1 e2 e3)
qed

end
